theory Spec2Isabelle
  imports Complex_Main "HOL-Library.Word" "HOL-Library.Finite_Map"
begin

unbundle bit_operations_syntax

section \<open>Package obf: string hashing\<close>

text \<open>
  Go's \<open>byte\<close> is an unsigned 8-bit integer and \<open>uint32\<close> an unsigned 32-bit
  integer, both with wrap-around arithmetic. A Go \<open>string\<close> is a sequence of bytes;
  the conversion \<open>[]byte(s)\<close> yields these bytes one by one.
\<close>

type_synonym byte = "8 word"
type_synonym uint32 = "32 word"

definition bytes_of :: "string \<Rightarrow> byte list" where
  "bytes_of s = map of_char s"

subsection \<open>DBJ2Hash (obf.go, lines 15-34)\<close>

text \<open>
  The body of the \<open>for _, b := range buffer\<close> loop: a zero byte is skipped
  (\<open>continue\<close>), a byte \<open>b >= 'a'\<close> is reduced by \<open>0x20\<close>, and the accumulator
  becomes \<open>((hash << 5) + hash) + uint32(b)\<close>.
\<close>

definition fold_byte :: "byte \<Rightarrow> byte" where
  "fold_byte b = (if b \<ge> 0x61 then b - 0x20 else b)"

definition dbj2_step :: "uint32 \<Rightarrow> byte \<Rightarrow> uint32" where
  "dbj2_step hash b =
     (if b = 0 then hash
      else (push_bit 5 hash + hash) + ucast (fold_byte b))"

fun dbj2_loop :: "uint32 \<Rightarrow> byte list \<Rightarrow> uint32" where
  "dbj2_loop hash [] = hash"
| "dbj2_loop hash (b # buffer) = dbj2_loop (dbj2_step hash b) buffer"

definition DBJ2Hash :: "byte list \<Rightarrow> uint32" where
  "DBJ2Hash buffer = dbj2_loop 5381 buffer"

definition DBJ2HashStr :: "string \<Rightarrow> uint32" where
  "DBJ2HashStr s = DBJ2Hash (bytes_of s)"

subsection \<open>FNV1AHash (obf.go, lines 82-105)\<close>

definition fnv1aOffset :: uint32 where
  "fnv1aOffset = 2166136261"

definition fnv1aPrime :: uint32 where
  "fnv1aPrime = 16777619"

definition fnv1a_step :: "uint32 \<Rightarrow> byte \<Rightarrow> uint32" where
  "fnv1a_step hash b =
     (if b = 0 then hash
      else (hash XOR ucast (fold_byte b)) * fnv1aPrime)"

fun fnv1a_loop :: "uint32 \<Rightarrow> byte list \<Rightarrow> uint32" where
  "fnv1a_loop hash [] = hash"
| "fnv1a_loop hash (b # buffer) = fnv1a_loop (fnv1a_step hash b) buffer"

definition FNV1AHash :: "byte list \<Rightarrow> uint32" where
  "FNV1AHash buffer = fnv1a_loop fnv1aOffset buffer"

subsection \<open>GetHashWithAlgorithm (obf.go, lines 108-117)\<close>

definition GetHashWithAlgorithm :: "string \<Rightarrow> string \<Rightarrow> uint32" where
  "GetHashWithAlgorithm s algorithm =
     (if algorithm = ''fnv1a'' then FNV1AHash (bytes_of s)
      else if algorithm = ''dbj2'' then DBJ2HashStr s
      else DBJ2HashStr s)"

subsection \<open>Package state: HashCache and collisionDetector (obf.go, lines 36-40)\<close>

text \<open>
  The two package-level maps are finite maps. Each mutex guards one map, so the code
  between a lock and its unlock is one atomic step on the state: a critical section.
  \<open>ClearHashCache\<close> and \<open>GetHashCacheStats\<close> hold both mutexes and are one section
  each; \<open>GetHash\<close> is up to three sections, between which other calls can run.

  Modelled from the spec: \<open>debug.Printfln\<close> of package \<open>debug\<close>, which is not among
  the sources. The spec calls it a non-fatal diagnostic event that never aborts
  processing, so each call appends one line (the tag and the printed arguments) to an
  output log and returns.
\<close>

datatype log_arg = ArgStr string | ArgU32 uint32

type_synonym log_line = "string \<times> log_arg list"

record obf_state =
  HashCache :: "(string, uint32) fmap"
  collisionDetector :: "(uint32, string) fmap"
  debug_out :: "log_line list"

definition init_state :: obf_state where
  "init_state = \<lparr>HashCache = fmempty, collisionDetector = fmempty, debug_out = []\<rparr>"

definition debug_Printfln :: "string \<Rightarrow> log_arg list \<Rightarrow> obf_state \<Rightarrow> obf_state" where
  "debug_Printfln tag args st = st\<lparr>debug_out := debug_out st @ [(tag, args)]\<rparr>"

subsection \<open>detectHashCollision (obf.go, lines 65-79)\<close>

definition collision_report :: "uint32 \<Rightarrow> string \<Rightarrow> string \<Rightarrow> obf_state \<Rightarrow> obf_state" where
  "collision_report hash existingString newString st =
     debug_Printfln ''OBF'' [ArgStr ''  New string:'', ArgStr newString]
      (debug_Printfln ''OBF'' [ArgStr ''  Existing string:'', ArgStr existingString]
        (debug_Printfln ''OBF'' [ArgStr ''  Hash:'', ArgU32 hash]
          (debug_Printfln ''OBF'' [ArgStr ''Warning: Hash collision detected!''] st)))"

definition detectHashCollision :: "uint32 \<Rightarrow> string \<Rightarrow> obf_state \<Rightarrow> obf_state" where
  "detectHashCollision hash newString st =
     (case fmlookup (collisionDetector st) hash of
        Some existingString \<Rightarrow>
          if existingString \<noteq> newString
          then collision_report hash existingString newString st
          else st
      | None \<Rightarrow> st\<lparr>collisionDetector := fmupd hash newString (collisionDetector st)\<rparr>)"

subsection \<open>GetHash (obf.go, lines 43-62)\<close>

text \<open>
  The critical sections of \<open>GetHash\<close>: the lookup under the read lock of
  \<open>hashCacheMutex\<close> (lines 44-49), the store under its write lock (lines 54-56), and
  \<open>detectHashCollision\<close> (line 59), which takes \<open>collisionMutex\<close> only after
  \<open>hashCacheMutex\<close> is released.
\<close>

definition GetHash_lookup :: "string \<Rightarrow> obf_state \<Rightarrow> uint32 option" where
  "GetHash_lookup s st = fmlookup (HashCache st) s"

definition GetHash_store :: "string \<Rightarrow> uint32 \<Rightarrow> obf_state \<Rightarrow> obf_state" where
  "GetHash_store s hash st = st\<lparr>HashCache := fmupd s hash (HashCache st)\<rparr>"

text \<open>
  A call of \<open>GetHash\<close> that no other call runs in between: its sections one after the
  other. Calls that interleave are composed from the same sections further below.
\<close>

definition GetHash :: "string \<Rightarrow> obf_state \<Rightarrow> uint32 \<times> obf_state" where
  "GetHash s st =
     (case GetHash_lookup s st of
        Some hash \<Rightarrow> (hash, st)
      | None \<Rightarrow>
          let hash = DBJ2HashStr s;
              st1 = GetHash_store s hash st;
              st2 = detectHashCollision hash s st1
          in (hash, st2))"

lemmas GetHash_unfold = GetHash_def [unfolded GetHash_lookup_def GetHash_store_def]

subsection \<open>ClearHashCache (obf.go, lines 120-129)\<close>

definition ClearHashCache :: "obf_state \<Rightarrow> obf_state" where
  "ClearHashCache st = st\<lparr>HashCache := fmempty, collisionDetector := fmempty\<rparr>"

subsection \<open>GetHashCacheStats (obf.go, lines 132-153)\<close>

text \<open>
  The returned Go map has the four keys below; \<open>len\<close> yields a Go \<open>int\<close>, and
  \<open>cache_hit_ratio\<close> is the constant \<open>0.0\<close>.
\<close>

record cache_stats =
  total_entries :: int
  unique_hashes :: int
  collisions :: int
  cache_hit_ratio :: real

definition GetHashCacheStats :: "obf_state \<Rightarrow> cache_stats" where
  "GetHashCacheStats st =
     (let collisions0 = 0;
          uniqueHashes = int (fcard (fmdom (collisionDetector st)));
          totalEntries = int (fcard (fmdom (HashCache st)));
          collisions1 = (if totalEntries > uniqueHashes
                         then totalEntries - uniqueHashes else collisions0)
      in \<lparr>total_entries = totalEntries, unique_hashes = uniqueHashes,
          collisions = collisions1, cache_hit_ratio = 0\<rparr>)"

subsection \<open>Sequences of calls to the exported functions, one call after the other\<close>

datatype call =
    CallGetHash string
  | CallGetHashWithAlgorithm string string
  | CallClearHashCache
  | CallGetHashCacheStats

datatype result = RetHash uint32 | RetUnit | RetStats cache_stats

fun api :: "call \<Rightarrow> obf_state \<Rightarrow> result \<times> obf_state" where
  "api (CallGetHash s) st = (case GetHash s st of (h, st') \<Rightarrow> (RetHash h, st'))"
| "api (CallGetHashWithAlgorithm s algorithm) st = (RetHash (GetHashWithAlgorithm s algorithm), st)"
| "api CallClearHashCache st = (RetUnit, ClearHashCache st)"
| "api CallGetHashCacheStats st = (RetStats (GetHashCacheStats st), st)"

fun run :: "call list \<Rightarrow> obf_state \<Rightarrow> obf_state" where
  "run [] st = st"
| "run (c # cs) st = run cs (snd (api c st))"

subsection \<open>Calls that interleave\<close>

text \<open>
  Goroutines are numbered. A goroutine inside \<open>GetHash\<close> stands between two critical
  sections, holding its local variables: after a lookup that missed it is about to
  store (the hash is computed on line 51, outside every lock), after the store it is
  about to run \<open>detectHashCollision\<close>. An event is one critical section: a goroutine
  that is not inside a call begins one (for \<open>GetHash\<close> this is the lookup; the other
  functions are a single section and finish at once), or a goroutine inside
  \<open>GetHash\<close> runs its next section. An event that is not possible (beginning a call
  inside a call, advancing outside one) yields \<open>None\<close>. The values the calls return
  are not recorded.
\<close>

datatype pc = AtStore string uint32 | AtDetect uint32 string

record conf =
  shared :: obf_state
  pending :: "(nat, pc) fmap"

definition init_conf :: conf where
  "init_conf = \<lparr>shared = init_state, pending = fmempty\<rparr>"

datatype event = Begin nat call | Advance nat

fun begin_call :: "nat \<Rightarrow> call \<Rightarrow> conf \<Rightarrow> conf" where
  "begin_call t (CallGetHash s) cf =
     (case GetHash_lookup s (shared cf) of
        Some hash \<Rightarrow> cf
      | None \<Rightarrow> cf\<lparr>pending := fmupd t (AtStore s (DBJ2HashStr s)) (pending cf)\<rparr>)"
| "begin_call t c cf = cf\<lparr>shared := snd (api c (shared cf))\<rparr>"

fun advance :: "nat \<Rightarrow> pc \<Rightarrow> conf \<Rightarrow> conf" where
  "advance t (AtStore s hash) cf =
     cf\<lparr>shared := GetHash_store s hash (shared cf),
        pending := fmupd t (AtDetect hash s) (pending cf)\<rparr>"
| "advance t (AtDetect hash s) cf =
     cf\<lparr>shared := detectHashCollision hash s (shared cf),
        pending := fmdrop t (pending cf)\<rparr>"

fun exec_event :: "event \<Rightarrow> conf \<Rightarrow> conf option" where
  "exec_event (Begin t c) cf =
     (case fmlookup (pending cf) t of
        Some p \<Rightarrow> None
      | None \<Rightarrow> Some (begin_call t c cf))"
| "exec_event (Advance t) cf =
     (case fmlookup (pending cf) t of
        Some p \<Rightarrow> Some (advance t p cf)
      | None \<Rightarrow> None)"

fun exec_events :: "event list \<Rightarrow> conf \<Rightarrow> conf option" where
  "exec_events [] cf = Some cf"
| "exec_events (e # es) cf =
     (case exec_event e cf of
        None \<Rightarrow> None
      | Some cf' \<Rightarrow> exec_events es cf')"

text \<open>
  Some goroutine has stored its string and has not yet run \<open>detectHashCollision\<close>;
  and the schedules in which \<open>ClearHashCache\<close> never begins at such a moment.
\<close>

fun at_detect :: "pc option \<Rightarrow> bool" where
  "at_detect (Some (AtDetect hash s)) = True"
| "at_detect p = False"

definition detect_pending :: "conf \<Rightarrow> bool" where
  "detect_pending cf = fBex (fmdom (pending cf)) (\<lambda>t. at_detect (fmlookup (pending cf) t))"

fun is_clear :: "event \<Rightarrow> bool" where
  "is_clear (Begin t CallClearHashCache) = True"
| "is_clear e = False"

fun clear_apart :: "event list \<Rightarrow> conf \<Rightarrow> bool" where
  "clear_apart [] cf = True"
| "clear_apart (e # es) cf =
     ((if is_clear e then \<not> detect_pending cf else True) \<and>
      (case exec_event e cf of
         None \<Rightarrow> True
       | Some cf' \<Rightarrow> clear_apart es cf'))"

text \<open>The events of one call that runs with no other event in between.\<close>

fun call_events :: "nat \<Rightarrow> call \<Rightarrow> obf_state \<Rightarrow> event list" where
  "call_events t (CallGetHash s) st =
     (case GetHash_lookup s st of
        Some hash \<Rightarrow> [Begin t (CallGetHash s)]
      | None \<Rightarrow> [Begin t (CallGetHash s), Advance t, Advance t])"
| "call_events t c st = [Begin t c]"

fun calls_events :: "nat \<Rightarrow> call list \<Rightarrow> obf_state \<Rightarrow> event list" where
  "calls_events t [] st = []"
| "calls_events t (c # cs) st = call_events t c st @ calls_events t cs (snd (api c st))"

section \<open>Package unhook: do_syscall (do_syscall.S)\<close>

text \<open>
  The routine is x86-64 assembly for the Windows calling convention. The machine state
  holds the registers the routine names, the four flags it sets or depends on, and
  the memory. Memory is a store of quadwords addressed by the byte address of their
  first byte: every access of the routine is a quadword access at \<open>rsp\<close> plus a multiple
  of 8, so two accesses hit the same quadword or disjoint ones. Address and register
  arithmetic is 64-bit and wraps around.
\<close>

type_synonym u64 = "64 word"

record machine =
  rax :: u64
  rcx :: u64
  rdx :: u64
  rsi :: u64
  rdi :: u64
  r8 :: u64
  r9 :: u64
  r10 :: u64
  r11 :: u64
  rsp :: u64
  rip :: u64
  ZF :: bool
  SF :: bool
  OF :: bool
  CF :: bool
  DF :: bool
  mem :: "u64 \<Rightarrow> u64"

subsection \<open>Lines 5-15: saving \<open>rsi\<close> and \<open>rdi\<close>, moving the register arguments\<close>

definition do_syscall_prologue :: "machine \<Rightarrow> machine" where
  "do_syscall_prologue s0 =
     (let s1 = s0\<lparr>mem := (mem s0)(rsp s0 - 0x8 := rsi s0)\<rparr>;
          s2 = s1\<lparr>mem := (mem s1)(rsp s1 - 0x10 := rdi s1)\<rparr>;
          s3 = s2\<lparr>rax := ucast (ucast (rcx s2) :: 32 word)\<rparr>;
          s4 = s3\<lparr>rcx := rdx s3\<rparr>;
          s5 = s4\<lparr>r10 := r8 s4\<rparr>;
          s6 = s5\<lparr>rdx := r9 s5\<rparr>;
          s7 = s6\<lparr>r8 := mem s6 (rsp s6 + 0x28)\<rparr>;
          s8 = s7\<lparr>r9 := mem s7 (rsp s7 + 0x30)\<rparr>
      in s8)"

subsection \<open>Lines 17-18: \<open>sub rcx, 0x4\<close> and \<open>jle skip\<close>\<close>

text \<open>
  \<open>sub\<close> stores the difference and sets the flags from it: zero, sign, signed
  overflow and borrow. \<open>jle\<close> jumps when \<open>ZF = 1\<close> or \<open>SF \<noteq> OF\<close>.
\<close>

definition sign_bit :: "u64 \<Rightarrow> bool" where
  "sign_bit w = bit w 63"

definition sub_rcx :: "u64 \<Rightarrow> machine \<Rightarrow> machine" where
  "sub_rcx imm s =
     (let a = rcx s; r = a - imm
      in s\<lparr>rcx := r, ZF := (r = 0), SF := sign_bit r,
           OF := (sign_bit a \<noteq> sign_bit imm \<and> sign_bit r \<noteq> sign_bit a),
           CF := (a < imm)\<rparr>)"

definition jle_taken :: "machine \<Rightarrow> bool" where
  "jle_taken s = (ZF s \<or> SF s \<noteq> OF s)"

subsection \<open>Lines 20-23: \<open>lea\<close>, \<open>lea\<close>, \<open>rep movsq\<close>\<close>

text \<open>
  One \<open>movsq\<close> copies the quadword at \<open>[rsi]\<close> to \<open>[rdi]\<close> and moves both pointers
  by 8, upwards when the direction flag is clear and downwards when it is set. The
  \<open>rep\<close> prefix repeats it, decrementing \<open>rcx\<close>, until \<open>rcx\<close> is zero.
\<close>

definition movsq :: "machine \<Rightarrow> machine" where
  "movsq s =
     s\<lparr>mem := (mem s)(rdi s := mem s (rsi s)),
       rsi := (if DF s then rsi s - 8 else rsi s + 8),
       rdi := (if DF s then rdi s - 8 else rdi s + 8)\<rparr>"

definition rep_step :: "machine \<Rightarrow> machine" where
  "rep_step s = (let s' = movsq s in s'\<lparr>rcx := rcx s' - 1\<rparr>)"

function rep_movsq :: "machine \<Rightarrow> machine" where
  "rep_movsq s = (if rcx s = 0 then s else rep_movsq (rep_step s))"
  by pat_completeness auto
termination
proof (relation "measure (\<lambda>s. unat (rcx s))")
  show "wf (measure (\<lambda>s. unat (rcx s)))" by simp
next
  fix s :: machine
  assume "rcx s \<noteq> 0"
  then have "unat (rcx s - 1) < unat (rcx s)"
    by (simp add: unat_minus_one unat_gt_0)
  then show "(rep_step s, s) \<in> measure (\<lambda>s. unat (rcx s))"
    by (simp add: rep_step_def movsq_def Let_def)
qed

declare rep_movsq.simps [simp del]

definition spill :: "machine \<Rightarrow> machine" where
  "spill s0 =
     (let s1 = s0\<lparr>rsi := rsp s0 + 0x38\<rparr>;
          s2 = s1\<lparr>rdi := rsp s1 + 0x28\<rparr>
      in rep_movsq s2)"

subsection \<open>Lines 5-24: everything before the \<open>syscall\<close> instruction\<close>

definition do_syscall_marshal :: "machine \<Rightarrow> machine" where
  "do_syscall_marshal s0 =
     (let s1 = do_syscall_prologue s0;
          s2 = sub_rcx 0x4 s1
      in if jle_taken s2 then s2 else spill s2)"

subsection \<open>Lines 25-30: \<open>syscall\<close>, restoring \<open>rsi\<close> and \<open>rdi\<close>, \<open>ret\<close>\<close>

text \<open>
  What the \<open>syscall\<close> instruction and the kernel behind it do to the machine state is
  not part of the routine: it is the parameter \<open>transition\<close>. \<open>ret\<close> pops the return
  address.
\<close>

definition do_syscall_epilogue :: "machine \<Rightarrow> machine" where
  "do_syscall_epilogue s0 =
     (let s1 = s0\<lparr>rsi := mem s0 (rsp s0 - 0x8)\<rparr>;
          s2 = s1\<lparr>rdi := mem s1 (rsp s1 - 0x10)\<rparr>;
          s3 = s2\<lparr>rip := mem s2 (rsp s2), rsp := rsp s2 + 8\<rparr>
      in s3)"

definition do_syscall :: "(machine \<Rightarrow> machine) \<Rightarrow> machine \<Rightarrow> machine" where
  "do_syscall transition s = do_syscall_epilogue (transition (do_syscall_marshal s))"

text \<open>
  The block copy as a function of the memory alone: \<open>n\<close> quadwords from \<open>src\<close> to
  \<open>dst\<close>, lowest address first, each read from the memory as the writes before it
  have left it.
\<close>

fun copy_up :: "(u64 \<Rightarrow> u64) \<Rightarrow> u64 \<Rightarrow> u64 \<Rightarrow> nat \<Rightarrow> (u64 \<Rightarrow> u64)" where
  "copy_up m src dst 0 = m"
| "copy_up m src dst (Suc n) = copy_up (m(dst := m src)) (src + 8) (dst + 8) n"

subsection \<open>A concrete call\<close>

text \<open>
  A call with six arguments \<open>0xA0, \<dots>, 0xA5\<close> as the Windows convention passes it:
  the call number in \<open>rcx\<close>, the argument count in \<open>rdx\<close>, the first two arguments
  in \<open>r8\<close> and \<open>r9\<close>, the others on the stack from \<open>[rsp + 0x28]\<close>, above the return
  address and the shadow space; the same call with the count 3; and a transition that
  returns a status in \<open>rax\<close>, overwrites \<open>rcx\<close>, \<open>r11\<close>, \<open>rsi\<close> and \<open>rdi\<close>, and
  stores to the address in \<open>r10\<close>.
\<close>

definition entry6 :: machine where
  "entry6 =
     \<lparr>rax = 0, rcx = 0x18, rdx = 6, rsi = 0x1111, rdi = 0x2222, r8 = 0xA0, r9 = 0xA1,
      r10 = 0, r11 = 0, rsp = 0x1000, rip = 0x401000,
      ZF = False, SF = False, OF = False, CF = False, DF = False,
      mem = (\<lambda>a. 0)(0x1000 := 0x401005, 0x1028 := 0xA2, 0x1030 := 0xA3,
                     0x1038 := 0xA4, 0x1040 := 0xA5)\<rparr>"

definition entry3 :: machine where
  "entry3 = entry6\<lparr>rdx := 3\<rparr>"

definition status_transition :: "machine \<Rightarrow> machine" where
  "status_transition s =
     s\<lparr>rax := 0xC0000005, rcx := 0x401234, r11 := 0x246, rsi := 0, rdi := 0,
       mem := (mem s)(r10 s := 0x55)\<rparr>"

section \<open>The specification's reference hash\<close>

text \<open>
  The default algorithm as the specification words it: seed 5381, zero bytes skipped,
  ASCII lowercase letters (the bytes \<open>0x61\<close> to \<open>0x7A\<close>) folded to uppercase, every
  other byte unchanged, and the 32-bit update
  \<open>accumulator = (accumulator << 5) + accumulator + byte\<close>.
\<close>

definition is_ascii_lower :: "byte \<Rightarrow> bool" where
  "is_ascii_lower b = (0x61 \<le> b \<and> b \<le> 0x7A)"

definition is_ascii_upper :: "byte \<Rightarrow> bool" where
  "is_ascii_upper b = (0x41 \<le> b \<and> b \<le> 0x5A)"

definition spec_fold_byte :: "byte \<Rightarrow> byte" where
  "spec_fold_byte b = (if is_ascii_lower b then b - 0x20 else b)"

definition spec_normalize :: "byte list \<Rightarrow> byte list" where
  "spec_normalize buffer = map spec_fold_byte (filter (\<lambda>b. b \<noteq> 0) buffer)"

definition spec_DBJ2Hash :: "byte list \<Rightarrow> uint32" where
  "spec_DBJ2Hash buffer =
     foldl (\<lambda>acc b. push_bit 5 acc + acc + ucast b) 5381 (spec_normalize buffer)"

text \<open>Changing the ASCII case of one byte; a byte that is not a letter stays.\<close>

definition swap_case :: "byte \<Rightarrow> byte" where
  "swap_case b =
     (if is_ascii_lower b then b - 0x20
      else if is_ascii_upper b then b + 0x20
      else b)"

section \<open>The invariant of the package state\<close>

text \<open>
  What every state reached by calls that run one after the other satisfies: a cached
  value is the default hash of its key; a registry entry records a cached string under
  that string's hash; and the hash of every cached string has a registry entry.
\<close>

definition cache_inv :: "obf_state \<Rightarrow> bool" where
  "cache_inv st \<longleftrightarrow>
     (\<forall>s h. fmlookup (HashCache st) s = Some h \<longrightarrow> h = DBJ2HashStr s) \<and>
     (\<forall>h e. fmlookup (collisionDetector st) h = Some e \<longrightarrow>
        DBJ2HashStr e = h \<and> e |\<in>| fmdom (HashCache st)) \<and>
     (\<forall>s. s |\<in>| fmdom (HashCache st) \<longrightarrow> DBJ2HashStr s |\<in>| fmdom (collisionDetector st))"

text \<open>
  What holds when calls interleave, as long as \<open>ClearHashCache\<close> keeps apart from a
  goroutine between its store and its collision detection: a registry entry records a
  cached string under that string's hash, a goroutine about to detect has its string
  in the cache, and the hash a goroutine holds is the hash of its string.
\<close>

definition conf_inv :: "conf \<Rightarrow> bool" where
  "conf_inv cf \<longleftrightarrow>
     (\<forall>h e. fmlookup (collisionDetector (shared cf)) h = Some e \<longrightarrow>
        DBJ2HashStr e = h \<and> e |\<in>| fmdom (HashCache (shared cf))) \<and>
     (\<forall>t h s. fmlookup (pending cf) t = Some (AtDetect h s) \<longrightarrow>
        h = DBJ2HashStr s \<and> s |\<in>| fmdom (HashCache (shared cf))) \<and>
     (\<forall>t s h. fmlookup (pending cf) t = Some (AtStore s h) \<longrightarrow> h = DBJ2HashStr s)"

section \<open>Properties of the hash functions\<close>

subsection \<open>The loops, piece by piece\<close>

lemma dbj2_loop_append: "dbj2_loop h (xs @ ys) = dbj2_loop (dbj2_loop h xs) ys"
  by (induction xs arbitrary: h) simp_all

lemma fnv1a_loop_append: "fnv1a_loop h (xs @ ys) = fnv1a_loop (fnv1a_loop h xs) ys"
  by (induction xs arbitrary: h) simp_all

lemma fold_byte_spec_fold_byte: "fold_byte (spec_fold_byte b) = fold_byte b"
  unfolding fold_byte_def spec_fold_byte_def is_ascii_lower_def
  by (auto simp: word_le_nat_alt unat_sub)

lemma fold_byte_swap_case: "fold_byte (swap_case b) = fold_byte b"
  unfolding fold_byte_def swap_case_def is_ascii_lower_def is_ascii_upper_def
  by (auto simp: word_le_nat_alt unat_sub unat_word_ariths)

lemma swap_case_eq_0: "swap_case b = 0 \<longleftrightarrow> b = 0"
  unfolding swap_case_def is_ascii_lower_def is_ascii_upper_def
  by (auto simp: word_unat_eq_iff word_le_nat_alt unat_sub unat_word_ariths)

lemma dbj2_step_swap_case: "dbj2_step h (swap_case b) = dbj2_step h b"
  by (simp add: dbj2_step_def fold_byte_swap_case swap_case_eq_0)

text \<open>
  The loop of the code reads its input only through the specification's normal form,
  although it folds with \<open>fold_byte\<close> where the specification folds letters only.
\<close>

lemma dbj2_loop_normalize:
  "dbj2_loop h buffer =
     foldl (\<lambda>acc b. push_bit 5 acc + acc + ucast (fold_byte b)) h (spec_normalize buffer)"
  by (induction buffer arbitrary: h)
     (simp_all add: spec_normalize_def dbj2_step_def fold_byte_spec_fold_byte)

lemma fold_byte_le_z: "b \<le> 0x7A \<Longrightarrow> fold_byte b = spec_fold_byte b"
  unfolding fold_byte_def spec_fold_byte_def is_ascii_lower_def by simp

lemma dbj2_loop_spec:
  "\<forall>b\<in>set buffer. b \<le> 0x7A \<Longrightarrow>
   dbj2_loop h buffer = foldl (\<lambda>acc b. push_bit 5 acc + acc + ucast b) h (spec_normalize buffer)"
  by (induction buffer arbitrary: h)
     (simp_all add: spec_normalize_def dbj2_step_def fold_byte_le_z)

text \<open>
  On inputs without a byte above \<open>'z'\<close> the code computes the reference hash: the two
  can differ only where a byte from \<open>0x7B\<close> to \<open>0xFF\<close> occurs.
\<close>

lemma DBJ2Hash_agrees_up_to_z:
  "\<forall>b\<in>set buffer. b \<le> 0x7A \<Longrightarrow> DBJ2Hash buffer = spec_DBJ2Hash buffer"
  by (simp add: DBJ2Hash_def spec_DBJ2Hash_def dbj2_loop_spec)

subsection \<open>C1: the code against the reference definition\<close>

text \<open>
  C1 says that \<open>DBJ2Hash\<close> equals the specification's reference definition, which folds
  ASCII lowercase letters and only those. The code's test is \<open>b >= 'a'\<close> with no upper
  bound, under the comment "Convert lowercase to uppercase": on the one-byte input
  \<open>{\<close> (\<open>0x7B\<close>) the code folds the byte to \<open>[\<close> and returns 177664, where the
  reference definition leaves it and yields 177696.
\<close>

theorem DBJ2Hash_differs_from_reference_at_brace:
  "DBJ2Hash [0x7B] = 177664 \<and> spec_DBJ2Hash [0x7B] = 177696 \<and>
   DBJ2Hash [0x7B] \<noteq> spec_DBJ2Hash [0x7B]"
  by (simp add: DBJ2Hash_def dbj2_step_def fold_byte_def spec_DBJ2Hash_def spec_normalize_def
      spec_fold_byte_def is_ascii_lower_def)

subsection \<open>C8: invariance under the specification's normalization\<close>

text \<open>
  C8: the default hash does not change when the ASCII case of letters changes, nor when
  zero bytes are inserted or removed anywhere; zero bytes are elided, not terminators.
  Two inputs with the same normal form (zero bytes dropped, lowercase letters folded)
  have the same identifier, as byte slices and as strings; in particular swapping the
  case of the byte at any position, or putting a zero byte at any position, changes
  nothing, whatever follows that position.
\<close>

theorem DBJ2Hash_normalization_invariant:
  "(spec_normalize xs = spec_normalize ys \<longrightarrow> DBJ2Hash xs = DBJ2Hash ys) \<and>
   (spec_normalize (bytes_of s) = spec_normalize (bytes_of t) \<longrightarrow> DBJ2HashStr s = DBJ2HashStr t) \<and>
   DBJ2Hash (xs @ swap_case b # ys) = DBJ2Hash (xs @ b # ys) \<and>
   DBJ2Hash (xs @ 0 # ys) = DBJ2Hash (xs @ ys)"
proof -
  have "DBJ2Hash (xs @ swap_case b # ys) = DBJ2Hash (xs @ b # ys)"
    by (simp add: DBJ2Hash_def dbj2_loop_append dbj2_step_swap_case)
  moreover have "DBJ2Hash (xs @ 0 # ys) = DBJ2Hash (xs @ ys)"
    by (simp add: DBJ2Hash_def dbj2_loop_append dbj2_step_def)
  ultimately show ?thesis
    by (simp add: DBJ2Hash_def DBJ2HashStr_def dbj2_loop_normalize)
qed

theorem DBJ2Hash_normalization_invariant_witness:
  "spec_normalize (bytes_of ''Abc'') = spec_normalize (bytes_of ''ABC'') \<and>
   DBJ2HashStr ''Abc'' = DBJ2HashStr ''ABC'' \<and>
   spec_normalize (bytes_of ''ABC'') = spec_normalize (bytes_of ''abc'') \<and>
   DBJ2HashStr ''ABC'' = DBJ2HashStr ''abc'' \<and>
   DBJ2HashStr [CHR ''a'', CHR 0x00, CHR ''b''] = DBJ2HashStr ''ab'' \<and>
   DBJ2HashStr ''abc'' = 193450027"
  using DBJ2Hash_normalization_invariant [of "[]" "[]" "''Abc''" "''ABC''" 0]
    DBJ2Hash_normalization_invariant [of "[]" "[]" "''ABC''" "''abc''" 0]
    DBJ2Hash_normalization_invariant [of "[0x61]" "[0x62]" "[]" "[]" 0]
  by (simp add: DBJ2HashStr_def bytes_of_def spec_normalize_def spec_fold_byte_def
      is_ascii_lower_def DBJ2Hash_def dbj2_step_def fold_byte_def)

subsection \<open>Both update steps are injective in the accumulator\<close>

lemma fold_byte_twice: "0x61 \<le> b \<Longrightarrow> b \<le> 0x80 \<Longrightarrow> fold_byte (b - 0x20) = b - 0x20"
  unfolding fold_byte_def by (auto simp: word_le_nat_alt unat_sub)

lemma fold_byte_ge_a: "0x61 \<le> b \<Longrightarrow> fold_byte b = b - 0x20"
  unfolding fold_byte_def by simp

lemma sub_0x20_neq_0: "0x61 \<le> (b::byte) \<Longrightarrow> b - 0x20 \<noteq> 0"
  by (auto simp: word_unat_eq_iff word_le_nat_alt unat_sub)

lemma mult_33_inj: "(33::uint32) * x = 33 * y \<Longrightarrow> x = y"
proof -
  assume eq: "(33::uint32) * x = 33 * y"
  have inv: "(1041204193::uint32) * 33 = 1" by simp
  have "x = (1041204193 * 33) * x" unfolding inv by simp
  also have "\<dots> = 1041204193 * (33 * x)" by (rule mult.assoc)
  also have "\<dots> = 1041204193 * (33 * y)" unfolding eq ..
  also have "\<dots> = (1041204193 * 33) * y" by (rule mult.assoc [symmetric])
  also have "\<dots> = y" unfolding inv by simp
  finally show ?thesis .
qed

lemma mult_fnv1aPrime_inj: "x * fnv1aPrime = y * fnv1aPrime \<Longrightarrow> x = y"
proof -
  assume eq: "x * fnv1aPrime = y * fnv1aPrime"
  have inv: "fnv1aPrime * 899433627 = 1" by (simp add: fnv1aPrime_def)
  have "x = x * (fnv1aPrime * 899433627)" unfolding inv by simp
  also have "\<dots> = (x * fnv1aPrime) * 899433627" by (rule mult.assoc [symmetric])
  also have "\<dots> = (y * fnv1aPrime) * 899433627" unfolding eq ..
  also have "\<dots> = y * (fnv1aPrime * 899433627)" by (rule mult.assoc)
  also have "\<dots> = y" unfolding inv by simp
  finally show ?thesis .
qed

lemma dbj2_step_inj: "dbj2_step h b = dbj2_step h' b \<Longrightarrow> h = h'"
proof (cases "b = 0")
  case True
  assume "dbj2_step h b = dbj2_step h' b"
  with True show ?thesis by (simp add: dbj2_step_def)
next
  case False
  assume "dbj2_step h b = dbj2_step h' b"
  with False have "push_bit 5 h + h = push_bit 5 h' + h'" by (simp add: dbj2_step_def)
  then have "33 * h = 33 * h'" by (simp add: push_bit_eq_mult)
  then show ?thesis by (rule mult_33_inj)
qed

lemma dbj2_loop_inj: "dbj2_loop h xs = dbj2_loop h' xs \<Longrightarrow> h = h'"
  by (induction xs arbitrary: h h') (auto dest: dbj2_step_inj)

lemma fnv1a_step_inj: "fnv1a_step h b = fnv1a_step h' b \<Longrightarrow> h = h'"
proof (cases "b = 0")
  case True
  assume "fnv1a_step h b = fnv1a_step h' b"
  with True show ?thesis by (simp add: fnv1a_step_def)
next
  case False
  let ?c = "ucast (fold_byte b) :: uint32"
  assume "fnv1a_step h b = fnv1a_step h' b"
  with False have "(h XOR ?c) * fnv1aPrime = (h' XOR ?c) * fnv1aPrime"
    by (simp add: fnv1a_step_def)
  then have "h XOR ?c = h' XOR ?c" by (rule mult_fnv1aPrime_inj)
  then have "(h XOR ?c) XOR ?c = (h' XOR ?c) XOR ?c" by simp
  then show ?thesis by (simp add: xor.assoc)
qed

lemma fnv1a_loop_inj: "fnv1a_loop h xs = fnv1a_loop h' xs \<Longrightarrow> h = h'"
  by (induction xs arbitrary: h h') (auto dest: fnv1a_step_inj)

lemma ucast_byte_inj: "(ucast (x::byte) :: uint32) = ucast y \<Longrightarrow> x = y"
proof -
  assume "(ucast x :: uint32) = ucast y"
  then have "(ucast (ucast x :: uint32) :: byte) = ucast (ucast y :: uint32)" by simp
  then show ?thesis by (simp add: ucast_up_ucast_id is_up)
qed

lemma fold_twice_neq: "0x81 \<le> b \<Longrightarrow> fold_byte (b - 0x20) \<noteq> fold_byte b"
  unfolding fold_byte_def by (auto simp: word_unat_eq_iff word_le_nat_alt unat_sub)

lemma dbj2_step_byte_inj:
  "b \<noteq> 0 \<Longrightarrow> c \<noteq> 0 \<Longrightarrow> dbj2_step h b = dbj2_step h c \<Longrightarrow> fold_byte b = fold_byte c"
  by (auto simp: dbj2_step_def dest: ucast_byte_inj)

lemma fnv1a_step_byte_inj:
  "b \<noteq> 0 \<Longrightarrow> c \<noteq> 0 \<Longrightarrow> fnv1a_step h b = fnv1a_step h c \<Longrightarrow> fold_byte b = fold_byte c"
proof -
  assume "b \<noteq> 0" "c \<noteq> 0" "fnv1a_step h b = fnv1a_step h c"
  then have "(h XOR ucast (fold_byte b)) * fnv1aPrime = (h XOR ucast (fold_byte c)) * fnv1aPrime"
    by (simp add: fnv1a_step_def)
  then have "h XOR ucast (fold_byte b) = h XOR ucast (fold_byte c)" by (rule mult_fnv1aPrime_inj)
  then have "h XOR (h XOR ucast (fold_byte b)) = h XOR (h XOR ucast (fold_byte c))" by simp
  then have "(ucast (fold_byte b) :: uint32) = ucast (fold_byte c)"
    by (simp add: xor.assoc [symmetric])
  then show ?thesis by (rule ucast_byte_inj)
qed

subsection \<open>C3: what the fold does to bytes above \<open>'z'\<close>\<close>

text \<open>
  C3: in \<open>DBJ2Hash\<close> and in \<open>FNV1AHash\<close> every nonzero byte \<open>b \<ge> 0x61\<close>, a letter
  or not, enters the accumulator as \<open>b - 0x20\<close>. The claim goes on to say that
  replacing such a byte by \<open>b - 0x20\<close> in the input never changes the identifier. That
  holds exactly for \<open>0x61 \<le> b \<le> 0x80\<close>, where \<open>b - 0x20\<close> is below \<open>0x61\<close> and is
  not folded again (so \<open>{\<close> and \<open>[\<close> hash alike); for \<open>b \<ge> 0x81\<close> the replacement byte
  is itself at least \<open>0x61\<close>, it is folded a second time, and the identifiers always
  differ, whatever surrounds the byte.
\<close>

theorem fold_above_z:
  assumes "0x61 \<le> b"
  shows "dbj2_step h b = push_bit 5 h + h + ucast (b - 0x20) \<and>
         fnv1a_step h b = (h XOR ucast (b - 0x20)) * fnv1aPrime \<and>
         (DBJ2Hash (xs @ b # ys) = DBJ2Hash (xs @ (b - 0x20) # ys) \<longleftrightarrow> b \<le> 0x80) \<and>
         (FNV1AHash (xs @ b # ys) = FNV1AHash (xs @ (b - 0x20) # ys) \<longleftrightarrow> b \<le> 0x80)"
proof -
  from assms have nz: "b \<noteq> 0" "b - 0x20 \<noteq> 0" by (auto dest: sub_0x20_neq_0)
  have s1: "dbj2_step h b = push_bit 5 h + h + ucast (b - 0x20)" for h
    using assms nz by (simp add: dbj2_step_def fold_byte_ge_a)
  have s2: "fnv1a_step h b = (h XOR ucast (b - 0x20)) * fnv1aPrime" for h
    using assms nz by (simp add: fnv1a_step_def fold_byte_ge_a)
  show ?thesis
  proof (cases "b \<le> 0x80")
    case True
    with assms have f: "fold_byte (b - 0x20) = fold_byte b"
      by (simp add: fold_byte_twice fold_byte_ge_a)
    have "dbj2_step h (b - 0x20) = dbj2_step h b" for h
      using nz f by (simp add: dbj2_step_def)
    moreover have "fnv1a_step h (b - 0x20) = fnv1a_step h b" for h
      using nz f by (simp add: fnv1a_step_def)
    ultimately show ?thesis using True s1 s2
      by (simp add: DBJ2Hash_def FNV1AHash_def dbj2_loop_append fnv1a_loop_append)
  next
    case False
    then have "0x81 \<le> b" by (simp add: word_le_nat_alt not_le)
    then have f: "fold_byte (b - 0x20) \<noteq> fold_byte b" by (rule fold_twice_neq)
    have "DBJ2Hash (xs @ b # ys) \<noteq> DBJ2Hash (xs @ (b - 0x20) # ys)"
    proof
      assume "DBJ2Hash (xs @ b # ys) = DBJ2Hash (xs @ (b - 0x20) # ys)"
      then have "dbj2_step (dbj2_loop 5381 xs) b = dbj2_step (dbj2_loop 5381 xs) (b - 0x20)"
        by (simp add: DBJ2Hash_def dbj2_loop_append dbj2_loop_inj)
      from dbj2_step_byte_inj [OF nz(1) nz(2) this] f show False by simp
    qed
    moreover have "FNV1AHash (xs @ b # ys) \<noteq> FNV1AHash (xs @ (b - 0x20) # ys)"
    proof
      assume "FNV1AHash (xs @ b # ys) = FNV1AHash (xs @ (b - 0x20) # ys)"
      then have "fnv1a_step (fnv1a_loop fnv1aOffset xs) b = fnv1a_step (fnv1a_loop fnv1aOffset xs) (b - 0x20)"
        by (simp add: FNV1AHash_def fnv1a_loop_append fnv1a_loop_inj)
      from fnv1a_step_byte_inj [OF nz(1) nz(2) this] f show False by simp
    qed
    ultimately show ?thesis using False s1 s2 by simp
  qed
qed

theorem fold_above_z_witness:
  "(0x61::byte) \<le> 0x7B \<and> (0x7B::byte) \<le> 0x80 \<and>
   DBJ2Hash (bytes_of ''{'') = DBJ2Hash (bytes_of ''['') \<and>
   FNV1AHash (bytes_of ''a{b'') = FNV1AHash (bytes_of ''a[b'') \<and>
   dbj2_step 5381 0xFF = 177573 + 0xDF"
  using fold_above_z [of "0x7B" 5381 "[]" "[]"] fold_above_z [of "0x7B" 5381 "[0x61]" "[0x62]"]
    fold_above_z [of "0xFF" 5381 "[]" "[]"]
  by (simp add: bytes_of_def)

theorem replace_high_byte_counterexample:
  "(0x7B::byte) \<le> 0x81 \<and> (0x81::byte) \<le> 0xFF \<and>
   DBJ2Hash [0x81] \<noteq> DBJ2Hash [0x81 - 0x20] \<and>
   FNV1AHash [0x81] \<noteq> FNV1AHash [0x81 - 0x20]"
  by (simp add: DBJ2Hash_def dbj2_step_def FNV1AHash_def fnv1a_step_def fold_byte_def
      fnv1aOffset_def fnv1aPrime_def)

subsection \<open>C7: choosing the algorithm by name\<close>

text \<open>
  C7: \<open>GetHashWithAlgorithm\<close> with \<open>"fnv1a"\<close> returns \<open>FNV1AHash\<close> of the string's
  bytes, with \<open>"dbj2"\<close> it returns \<open>DBJ2HashStr\<close>, and with any other name it returns
  what \<open>"dbj2"\<close> returns, with no error; the call returns the same value in every
  state and leaves the cache, the collision registry and the log as they were.
\<close>

theorem GetHashWithAlgorithm_selects:
  "GetHashWithAlgorithm s ''fnv1a'' = FNV1AHash (bytes_of s) \<and>
   GetHashWithAlgorithm s ''dbj2'' = DBJ2HashStr s \<and>
   (algorithm \<noteq> ''fnv1a'' \<and> algorithm \<noteq> ''dbj2'' \<longrightarrow>
      GetHashWithAlgorithm s algorithm = GetHashWithAlgorithm s ''dbj2'') \<and>
   api (CallGetHashWithAlgorithm s algorithm) st = (RetHash (GetHashWithAlgorithm s algorithm), st) \<and>
   run [CallGetHashWithAlgorithm s algorithm] st = st"
  by (simp add: GetHashWithAlgorithm_def)

theorem GetHashWithAlgorithm_selects_witness:
  "''unknown'' \<noteq> ''fnv1a'' \<and> ''unknown'' \<noteq> ''dbj2'' \<and>
   GetHashWithAlgorithm ''abc'' ''unknown'' = GetHashWithAlgorithm ''abc'' ''dbj2'' \<and>
   GetHashWithAlgorithm ''abc'' ''unknown'' = 193450027 \<and>
   GetHashWithAlgorithm ''abc'' ''fnv1a'' = FNV1AHash (bytes_of ''abc'')"
  using GetHashWithAlgorithm_selects [of "''abc''" "''unknown''" init_state]
  by (simp add: GetHashWithAlgorithm_def DBJ2HashStr_def DBJ2Hash_def bytes_of_def
      dbj2_step_def fold_byte_def)


section \<open>Properties of the cache and the collision registry\<close>

subsection \<open>The functions, field by field\<close>

lemma HashCache_debug_Printfln [simp]: "HashCache (debug_Printfln tag args st) = HashCache st"
  and collisionDetector_debug_Printfln [simp]:
    "collisionDetector (debug_Printfln tag args st) = collisionDetector st"
  by (simp_all add: debug_Printfln_def)

lemma HashCache_collision_report [simp]:
  "HashCache (collision_report h e n st) = HashCache st"
  and collisionDetector_collision_report [simp]:
  "collisionDetector (collision_report h e n st) = collisionDetector st"
  by (simp_all add: collision_report_def)

lemma HashCache_detectHashCollision [simp]:
  "HashCache (detectHashCollision h n st) = HashCache st"
  by (simp add: detectHashCollision_def split: option.splits)

lemma collisionDetector_detectHashCollision:
  "collisionDetector (detectHashCollision h n st) =
     (case fmlookup (collisionDetector st) h of
        Some e \<Rightarrow> collisionDetector st
      | None \<Rightarrow> fmupd h n (collisionDetector st))"
  by (simp add: detectHashCollision_def split: option.splits)

lemma cache_inv_init: "cache_inv init_state"
  by (simp add: cache_inv_def init_state_def)

lemma cache_inv_ClearHashCache: "cache_inv (ClearHashCache st)"
  by (simp add: cache_inv_def ClearHashCache_def)

lemma cache_inv_GetHash: "cache_inv st \<Longrightarrow> cache_inv (snd (GetHash s st))"
  unfolding cache_inv_def GetHash_unfold
  apply (cases "fmlookup (HashCache st) s")
   apply (simp_all add: Let_def collisionDetector_detectHashCollision split: option.splits)
  apply (intro conjI impI allI)
  apply (auto simp: fmlookup_dom_iff split: if_splits)
  done

lemma cache_inv_api: "cache_inv st \<Longrightarrow> cache_inv (snd (api c st))"
  by (cases c) (simp_all add: cache_inv_GetHash cache_inv_ClearHashCache split: prod.splits,
      metis cache_inv_GetHash snd_conv)

lemma cache_inv_run: "cache_inv st \<Longrightarrow> cache_inv (run cs st)"
  by (induction cs arbitrary: st) (simp_all add: cache_inv_api)

lemma cache_inv_reachable: "cache_inv (run cs init_state)"
  by (simp add: cache_inv_run cache_inv_init)

lemma GetHash_value: "cache_inv st \<Longrightarrow> fst (GetHash s st) = DBJ2HashStr s"
  by (auto simp: cache_inv_def GetHash_unfold Let_def split: option.splits)

lemma GetHash_cached:
  "fmlookup (HashCache (snd (GetHash s st))) s = Some (fst (GetHash s st))"
  by (simp add: GetHash_unfold Let_def split: option.splits)

lemma GetHash_hit: "fmlookup (HashCache st) s = Some h \<Longrightarrow> GetHash s st = (h, st)"
  by (simp add: GetHash_unfold)

lemma GetHash_twice:
  "GetHash s (snd (GetHash s st)) = (fst (GetHash s st), snd (GetHash s st))"
  by (rule GetHash_hit) (rule GetHash_cached)


text \<open>The definitions a concrete run is evaluated with.\<close>

lemmas obf_eval = init_state_def GetHash_unfold Let_def detectHashCollision_def collision_report_def
  debug_Printfln_def ClearHashCache_def GetHashCacheStats_def DBJ2HashStr_def DBJ2Hash_def
  bytes_of_def dbj2_step_def fold_byte_def GetHashWithAlgorithm_def

subsection \<open>C4: the cache is a transparent memoization\<close>

text \<open>
  C4: in every state reached from the empty one by calls of the exported functions,
  \<open>GetHash s\<close> returns \<open>DBJ2HashStr s\<close>; every cached entry equals the recomputed
  hash of its key; and a second \<open>GetHash\<close> of the same string returns the identical
  value and changes nothing.
\<close>

theorem GetHash_memoizes:
  "fst (GetHash s (run cs init_state)) = DBJ2HashStr s \<and>
   fmlookup (HashCache (snd (GetHash s (run cs init_state)))) s = Some (DBJ2HashStr s) \<and>
   GetHash s (snd (GetHash s (run cs init_state))) =
     (DBJ2HashStr s, snd (GetHash s (run cs init_state))) \<and>
   (\<forall>t h. fmlookup (HashCache (run cs init_state)) t = Some h \<longrightarrow> h = DBJ2HashStr t)"
proof -
  let ?st = "run cs init_state"
  have inv: "cache_inv ?st" by (rule cache_inv_reachable)
  then have v: "fst (GetHash s ?st) = DBJ2HashStr s" by (rule GetHash_value)
  moreover from GetHash_cached [of s ?st] v
  have "fmlookup (HashCache (snd (GetHash s ?st))) s = Some (DBJ2HashStr s)" by simp
  moreover from GetHash_twice [of s ?st] v
  have "GetHash s (snd (GetHash s ?st)) = (DBJ2HashStr s, snd (GetHash s ?st))" by simp
  moreover from inv have "\<forall>t h. fmlookup (HashCache ?st) t = Some h \<longrightarrow> h = DBJ2HashStr t"
    by (simp add: cache_inv_def)
  ultimately show ?thesis by simp
qed

theorem GetHash_memoizes_witness:
  "fmlookup (HashCache (run [CallGetHash ''foo'', CallClearHashCache, CallGetHash ''Foo'']
      init_state)) ''Foo'' = Some 193455913 \<and>
   DBJ2HashStr ''Foo'' = 193455913 \<and>
   fst (GetHash ''foo'' (run [CallGetHash ''foo'', CallClearHashCache, CallGetHash ''Foo'']
      init_state)) = 193455913"
  using GetHash_memoizes [of "''foo''" "[CallGetHash ''foo'', CallClearHashCache, CallGetHash ''Foo'']"]
  by (simp add: obf_eval)

subsection \<open>What one \<open>GetHash\<close> does to the registry and the log\<close>

lemma GetHash_miss:
  "fmlookup (HashCache st) s = None \<Longrightarrow>
   GetHash s st =
     (DBJ2HashStr s,
      detectHashCollision (DBJ2HashStr s) s (st\<lparr>HashCache := fmupd s (DBJ2HashStr s) (HashCache st)\<rparr>))"
  by (simp add: GetHash_unfold Let_def)



lemma run_CallGetHash: "run (CallGetHash s # cs) st = run cs (snd (GetHash s st))"
  by (simp split: prod.splits)



subsection \<open>C5: the registry keeps the first string\<close>





subsection \<open>The keys of the two maps\<close>

lemma fmdom_HashCache_GetHash:
  "fmdom (HashCache (snd (GetHash s st))) = finsert s (fmdom (HashCache st))"
proof (cases "fmlookup (HashCache st) s")
  case None
  then show ?thesis by (simp add: GetHash_miss)
next
  case (Some h)
  then have "s |\<in>| fmdom (HashCache st)" by (rule fmdomI)
  then have "finsert s (fmdom (HashCache st)) = fmdom (HashCache st)" by (rule finsert_absorb)
  with Some show ?thesis by (simp add: GetHash_hit)
qed

lemma fmdom_HashCache_run_GetHash:
  "fmdom (HashCache (run (map CallGetHash ss) st)) = fmdom (HashCache st) |\<union>| fset_of_list ss"
proof (induction ss arbitrary: st)
  case Nil
  show ?case by simp
next
  case (Cons s ss)
  have "fmdom (HashCache (run (map CallGetHash (s # ss)) st)) =
      fmdom (HashCache (run (map CallGetHash ss) (snd (GetHash s st))))"
    by (simp add: run_CallGetHash del: run.simps)
  also have "\<dots> = finsert s (fmdom (HashCache st)) |\<union>| fset_of_list ss"
    by (simp only: Cons.IH fmdom_HashCache_GetHash)
  also have "\<dots> = fmdom (HashCache st) |\<union>| fset_of_list (s # ss)"
    by simp
  finally show ?case .
qed

lemma registry_keys:
  assumes "cache_inv st"
  shows "fmdom (collisionDetector st) = DBJ2HashStr |`| fmdom (HashCache st)"
proof (rule fset_eqI)
  fix h
  show "h |\<in>| fmdom (collisionDetector st) \<longleftrightarrow> h |\<in>| DBJ2HashStr |`| fmdom (HashCache st)"
  proof
    assume "h |\<in>| fmdom (collisionDetector st)"
    then obtain e where "fmlookup (collisionDetector st) h = Some e"
      by (auto simp: fmlookup_dom_iff)
    with assms have "DBJ2HashStr e = h" and "e |\<in>| fmdom (HashCache st)"
      by (simp_all add: cache_inv_def)
    then show "h |\<in>| DBJ2HashStr |`| fmdom (HashCache st)" by (metis fimageI)
  next
    assume "h |\<in>| DBJ2HashStr |`| fmdom (HashCache st)"
    then obtain s where "s |\<in>| fmdom (HashCache st)" and "h = DBJ2HashStr s"
      by (rule fimageE)
    with assms show "h |\<in>| fmdom (collisionDetector st)" by (simp add: cache_inv_def)
  qed
qed

lemma fcard_fset_of_list: "distinct xs \<Longrightarrow> fcard (fset_of_list xs) = length xs"
  by (simp add: fcard.rep_eq fset_of_list.rep_eq distinct_card)

lemma fcard_fimage_le: "fcard (f |`| A) \<le> fcard A"
  by (simp add: fcard.rep_eq card_image_le)

lemma registry_le_cache:
  "cache_inv st \<Longrightarrow> fcard (fmdom (collisionDetector st)) \<le> fcard (fmdom (HashCache st))"
  by (simp add: registry_keys fcard_fimage_le)

subsection \<open>C6: the statistics\<close>

text \<open>
  C6: starting from the empty state, resolving \<open>k\<close> distinct strings whose default
  hashes are pairwise distinct makes \<open>GetHashCacheStats\<close> report \<open>total_entries = k\<close>,
  \<open>unique_hashes = k\<close> and \<open>collisions = 0\<close>; after \<open>ClearHashCache\<close> all three are
  zero and no string is cached, so the next \<open>GetHash\<close> computes and inserts again:
  the statistics go from zero to one entry and one hash.
\<close>

theorem stats_of_distinct_strings:
  assumes "distinct ss" and "distinct (map DBJ2HashStr ss)"
  shows "GetHashCacheStats (run (map CallGetHash ss) init_state) =
           \<lparr>total_entries = int (length ss), unique_hashes = int (length ss),
            collisions = 0, cache_hit_ratio = 0\<rparr> \<and>
         GetHashCacheStats (ClearHashCache (run (map CallGetHash ss) init_state)) =
           \<lparr>total_entries = 0, unique_hashes = 0, collisions = 0, cache_hit_ratio = 0\<rparr> \<and>
         GetHashCacheStats
             (snd (GetHash s (ClearHashCache (run (map CallGetHash ss) init_state)))) =
           \<lparr>total_entries = 1, unique_hashes = 1, collisions = 0, cache_hit_ratio = 0\<rparr> \<and>
         fmlookup (HashCache (ClearHashCache (run (map CallGetHash ss) init_state))) s = None \<and>
         fmlookup (HashCache
             (snd (GetHash s (ClearHashCache (run (map CallGetHash ss) init_state))))) s =
           Some (DBJ2HashStr s)"
proof -
  let ?st = "run (map CallGetHash ss) init_state"
  have inv: "cache_inv ?st" by (simp add: cache_inv_run cache_inv_init)
  have dom: "fmdom (HashCache ?st) = fset_of_list ss"
    by (simp add: fmdom_HashCache_run_GetHash init_state_def)
  have reg: "fmdom (collisionDetector ?st) = fset_of_list (map DBJ2HashStr ss)"
    by (simp add: registry_keys [OF inv] dom)
  have total: "fcard (fmdom (HashCache ?st)) = length ss"
    using assms(1) by (simp only: dom fcard_fset_of_list)
  have unique: "fcard (fmdom (collisionDetector ?st)) = length ss"
    using assms(2) by (simp only: reg fcard_fset_of_list length_map)
  have 1: "GetHashCacheStats ?st =
           \<lparr>total_entries = int (length ss), unique_hashes = int (length ss),
            collisions = 0, cache_hit_ratio = 0\<rparr>"
    by (simp add: GetHashCacheStats_def Let_def total unique)
  have 2: "GetHashCacheStats (ClearHashCache ?st) =
           \<lparr>total_entries = 0, unique_hashes = 0, collisions = 0, cache_hit_ratio = 0\<rparr>"
    by (simp add: GetHashCacheStats_def Let_def ClearHashCache_def fcard_fempty)
  have 3: "GetHashCacheStats (snd (GetHash s (ClearHashCache ?st))) =
           \<lparr>total_entries = 1, unique_hashes = 1, collisions = 0, cache_hit_ratio = 0\<rparr>"
    by (simp add: GetHashCacheStats_def ClearHashCache_def GetHash_unfold Let_def
        detectHashCollision_def fcard_finsert_if fcard_fempty)
  have 4: "fmlookup (HashCache (ClearHashCache ?st)) s = None"
    by (simp add: ClearHashCache_def)
  have 5: "fmlookup (HashCache (snd (GetHash s (ClearHashCache ?st)))) s = Some (DBJ2HashStr s)"
    by (simp add: ClearHashCache_def GetHash_unfold Let_def)
  from 1 2 3 4 5 show ?thesis by (intro conjI)
qed

theorem stats_of_distinct_strings_witness:
  "distinct [''a'', ''b'', ''c''] \<and> distinct (map DBJ2HashStr [''a'', ''b'', ''c'']) \<and>
   GetHashCacheStats (run (map CallGetHash [''a'', ''b'', ''c'']) init_state) =
     \<lparr>total_entries = 3, unique_hashes = 3, collisions = 0, cache_hit_ratio = 0\<rparr> \<and>
   GetHashCacheStats (ClearHashCache (run (map CallGetHash [''a'', ''b'', ''c'']) init_state)) =
     \<lparr>total_entries = 0, unique_hashes = 0, collisions = 0, cache_hit_ratio = 0\<rparr> \<and>
   GetHashCacheStats
       (snd (GetHash ''a'' (ClearHashCache (run (map CallGetHash [''a'', ''b'', ''c'']) init_state)))) =
     \<lparr>total_entries = 1, unique_hashes = 1, collisions = 0, cache_hit_ratio = 0\<rparr>"
proof -
  have d: "distinct [''a'', ''b'', ''c'']" by simp
  have h: "distinct (map DBJ2HashStr [''a'', ''b'', ''c''])"
    by (simp add: DBJ2HashStr_def DBJ2Hash_def bytes_of_def dbj2_step_def fold_byte_def)
  from stats_of_distinct_strings [OF d h, of "''a''"] d h show ?thesis by simp
qed

subsection \<open>Calls one after the other: the registry stays within the cache\<close>

text \<open>
  After calls that run one after the other, every key of the collision registry is
  the default hash of a cached string, the registry has at most as many keys as the
  cache, and \<open>collisions\<close> is \<open>total_entries - unique_hashes\<close>.
\<close>

lemma registry_within_cache_sequential:
  "(\<forall>h. h |\<in>| fmdom (collisionDetector (run cs init_state)) \<longrightarrow>
      (\<exists>s. s |\<in>| fmdom (HashCache (run cs init_state)) \<and> DBJ2HashStr s = h)) \<and>
   fcard (fmdom (collisionDetector (run cs init_state))) \<le>
     fcard (fmdom (HashCache (run cs init_state))) \<and>
   collisions (GetHashCacheStats (run cs init_state)) =
     total_entries (GetHashCacheStats (run cs init_state)) -
     unique_hashes (GetHashCacheStats (run cs init_state)) \<and>
   (\<not> total_entries (GetHashCacheStats (run cs init_state)) >
        unique_hashes (GetHashCacheStats (run cs init_state)) \<longrightarrow>
      total_entries (GetHashCacheStats (run cs init_state)) =
      unique_hashes (GetHashCacheStats (run cs init_state)))"
proof -
  let ?st = "run cs init_state"
  have inv: "cache_inv ?st" by (rule cache_inv_reachable)
  have 1: "\<forall>h. h |\<in>| fmdom (collisionDetector ?st) \<longrightarrow>
      (\<exists>s. s |\<in>| fmdom (HashCache ?st) \<and> DBJ2HashStr s = h)"
    by (auto simp: registry_keys [OF inv])
  have 2: "fcard (fmdom (collisionDetector ?st)) \<le> fcard (fmdom (HashCache ?st))"
    using inv by (rule registry_le_cache)
  have t: "total_entries (GetHashCacheStats ?st) = int (fcard (fmdom (HashCache ?st)))"
    by (simp add: GetHashCacheStats_def Let_def)
  have u: "unique_hashes (GetHashCacheStats ?st) = int (fcard (fmdom (collisionDetector ?st)))"
    by (simp add: GetHashCacheStats_def Let_def)
  have c: "collisions (GetHashCacheStats ?st) =
      (if total_entries (GetHashCacheStats ?st) > unique_hashes (GetHashCacheStats ?st)
       then total_entries (GetHashCacheStats ?st) - unique_hashes (GetHashCacheStats ?st)
       else 0)"
    by (simp add: GetHashCacheStats_def Let_def)
  from 2 have le: "unique_hashes (GetHashCacheStats ?st) \<le> total_entries (GetHashCacheStats ?st)"
    unfolding t u by (rule iffD2 [OF of_nat_le_iff])
  from le have 3: "collisions (GetHashCacheStats ?st) =
     total_entries (GetHashCacheStats ?st) - unique_hashes (GetHashCacheStats ?st)"
    unfolding c by arith
  from le have 4: "\<not> total_entries (GetHashCacheStats ?st) > unique_hashes (GetHashCacheStats ?st) \<longrightarrow>
      total_entries (GetHashCacheStats ?st) = unique_hashes (GetHashCacheStats ?st)"
    by arith
  from 1 2 3 4 show ?thesis by (intro conjI)
qed

subsection \<open>Calls that interleave: the invariant, step by step\<close>

lemma detect_pending_iff:
  "detect_pending cf \<longleftrightarrow> (\<exists>t h s. fmlookup (pending cf) t = Some (AtDetect h s))"
proof
  assume "detect_pending cf"
  then obtain t where "at_detect (fmlookup (pending cf) t)"
    by (auto simp: detect_pending_def)
  then show "\<exists>t h s. fmlookup (pending cf) t = Some (AtDetect h s)"
    by (cases "fmlookup (pending cf) t" rule: at_detect.cases) auto
next
  assume "\<exists>t h s. fmlookup (pending cf) t = Some (AtDetect h s)"
  then obtain t h s where p: "fmlookup (pending cf) t = Some (AtDetect h s)" by blast
  then have "t |\<in>| fmdom (pending cf)" by (rule fmdomI)
  with p show "detect_pending cf" unfolding detect_pending_def by force
qed

lemma conf_inv_init: "conf_inv init_conf"
  by (simp add: conf_inv_def init_conf_def init_state_def)

lemma conf_inv_begin:
  assumes "conf_inv cf" and "fmlookup (pending cf) t = None"
    and "c = CallClearHashCache \<longrightarrow> \<not> detect_pending cf"
  shows "conf_inv (begin_call t c cf)"
proof (cases c)
  case (CallGetHash s)
  with assms(1,2) show ?thesis
    by (auto simp: conf_inv_def split: option.splits)
next
  case (CallGetHashWithAlgorithm s a)
  with assms(1) show ?thesis by (simp add: conf_inv_def)
next
  case CallClearHashCache
  with assms(3) have "\<forall>t h s. fmlookup (pending cf) t \<noteq> Some (AtDetect h s)"
    by (simp add: detect_pending_iff)
  with assms(1) CallClearHashCache show ?thesis
    by (simp add: conf_inv_def ClearHashCache_def)
next
  case CallGetHashCacheStats
  with assms(1) show ?thesis by (simp add: conf_inv_def)
qed

lemma conf_inv_advance:
  assumes "conf_inv cf" and "fmlookup (pending cf) t = Some p"
  shows "conf_inv (advance t p cf)"
proof (cases p)
  case (AtStore s h)
  with assms have h: "h = DBJ2HashStr s" by (simp add: conf_inv_def)
  from assms(1) have
    1: "\<forall>h e. fmlookup (collisionDetector (shared cf)) h = Some e \<longrightarrow>
        DBJ2HashStr e = h \<and> e |\<in>| fmdom (HashCache (shared cf))" and
    2: "\<forall>t h s. fmlookup (pending cf) t = Some (AtDetect h s) \<longrightarrow>
        h = DBJ2HashStr s \<and> s |\<in>| fmdom (HashCache (shared cf))" and
    3: "\<forall>t s h. fmlookup (pending cf) t = Some (AtStore s h) \<longrightarrow> h = DBJ2HashStr s"
    by (simp_all add: conf_inv_def)
  show ?thesis unfolding conf_inv_def AtStore
  proof (intro conjI allI impI)
    fix h' e assume "fmlookup (collisionDetector (shared (advance t (AtStore s h) cf))) h' = Some e"
    then have "fmlookup (collisionDetector (shared cf)) h' = Some e"
      by (simp add: GetHash_store_def)
    with 1 have "DBJ2HashStr e = h'" "e |\<in>| fmdom (HashCache (shared cf))" by simp_all
    then show "DBJ2HashStr e = h'" "e |\<in>| fmdom (HashCache (shared (advance t (AtStore s h) cf)))"
      by (simp_all add: GetHash_store_def)
  next
    fix t' h' s' assume a: "fmlookup (pending (advance t (AtStore s h) cf)) t' = Some (AtDetect h' s')"
    show "h' = DBJ2HashStr s'" "s' |\<in>| fmdom (HashCache (shared (advance t (AtStore s h) cf)))"
      using a h 2 by (auto simp: GetHash_store_def split: if_splits)
  next
    fix t' s' h' assume "fmlookup (pending (advance t (AtStore s h) cf)) t' = Some (AtStore s' h')"
    then show "h' = DBJ2HashStr s'" using 3 by (auto split: if_splits)
  qed
next
  case (AtDetect h s)
  with assms have hs: "h = DBJ2HashStr s" "s |\<in>| fmdom (HashCache (shared cf))"
    by (simp_all add: conf_inv_def)
  from assms(1) have
    1: "\<forall>h e. fmlookup (collisionDetector (shared cf)) h = Some e \<longrightarrow>
        DBJ2HashStr e = h \<and> e |\<in>| fmdom (HashCache (shared cf))" and
    2: "\<forall>t h s. fmlookup (pending cf) t = Some (AtDetect h s) \<longrightarrow>
        h = DBJ2HashStr s \<and> s |\<in>| fmdom (HashCache (shared cf))" and
    3: "\<forall>t s h. fmlookup (pending cf) t = Some (AtStore s h) \<longrightarrow> h = DBJ2HashStr s"
    by (simp_all add: conf_inv_def)
  show ?thesis unfolding conf_inv_def AtDetect
  proof (intro conjI allI impI)
    fix h' e assume a: "fmlookup (collisionDetector (shared (advance t (AtDetect h s) cf))) h' = Some e"
    show "DBJ2HashStr e = h'" "e |\<in>| fmdom (HashCache (shared (advance t (AtDetect h s) cf)))"
      using a hs 1
      by (auto simp: collisionDetector_detectHashCollision split: option.splits if_splits)
  next
    fix t' h' s' assume a: "fmlookup (pending (advance t (AtDetect h s) cf)) t' = Some (AtDetect h' s')"
    show "h' = DBJ2HashStr s'" "s' |\<in>| fmdom (HashCache (shared (advance t (AtDetect h s) cf)))"
      using a 2 by (auto split: if_splits)
  next
    fix t' s' h' assume "fmlookup (pending (advance t (AtDetect h s) cf)) t' = Some (AtStore s' h')"
    then show "h' = DBJ2HashStr s'" using 3 by (auto split: if_splits)
  qed
qed

lemma conf_inv_event:
  assumes "conf_inv cf" and "exec_event e cf = Some cf'"
    and "is_clear e \<longrightarrow> \<not> detect_pending cf"
  shows "conf_inv cf'"
proof (cases e)
  case (Begin t c)
  with assms(2) have n: "fmlookup (pending cf) t = None" and cf': "cf' = begin_call t c cf"
    by (simp_all split: option.splits)
  from assms(3) Begin have "c = CallClearHashCache \<longrightarrow> \<not> detect_pending cf" by auto
  with assms(1) n show ?thesis unfolding cf' by (rule conf_inv_begin)
next
  case (Advance t)
  with assms(2) obtain p where p: "fmlookup (pending cf) t = Some p" and cf': "cf' = advance t p cf"
    by (auto split: option.splits)
  from assms(1) p show ?thesis unfolding cf' by (rule conf_inv_advance)
qed

lemma conf_inv_events:
  "conf_inv cf \<Longrightarrow> exec_events es cf = Some cf' \<Longrightarrow> clear_apart es cf \<Longrightarrow> conf_inv cf'"
proof (induction es arbitrary: cf)
  case Nil
  then show ?case by simp
next
  case (Cons e es)
  from Cons.prems(2) obtain cf1 where e: "exec_event e cf = Some cf1"
    and es: "exec_events es cf1 = Some cf'"
    by (auto split: option.splits)
  from Cons.prems(3) e have c: "is_clear e \<longrightarrow> \<not> detect_pending cf" and a: "clear_apart es cf1"
    by (auto split: if_splits)
  from Cons.prems(1) e c have "conf_inv cf1" by (rule conf_inv_event)
  then show ?case using es a by (rule Cons.IH)
qed

lemma conf_inv_registry_le:
  assumes "conf_inv cf"
  shows "fcard (fmdom (collisionDetector (shared cf))) \<le> fcard (fmdom (HashCache (shared cf)))"
proof -
  have "fmdom (collisionDetector (shared cf)) |\<subseteq>| DBJ2HashStr |`| fmdom (HashCache (shared cf))"
  proof
    fix h assume "h |\<in>| fmdom (collisionDetector (shared cf))"
    then obtain e where "fmlookup (collisionDetector (shared cf)) h = Some e"
      by (auto simp: fmlookup_dom_iff)
    with assms have "DBJ2HashStr e = h" and "e |\<in>| fmdom (HashCache (shared cf))"
      by (simp_all add: conf_inv_def)
    then show "h |\<in>| DBJ2HashStr |`| fmdom (HashCache (shared cf))" by (metis fimageI)
  qed
  then have "fcard (fmdom (collisionDetector (shared cf))) \<le>
      fcard (DBJ2HashStr |`| fmdom (HashCache (shared cf)))"
    by (rule fcard_mono)
  also have "\<dots> \<le> fcard (fmdom (HashCache (shared cf)))" by (rule fcard_fimage_le)
  finally show ?thesis .
qed

text \<open>Calls one after the other are such a schedule, and it ends where \<open>run\<close> ends.\<close>

lemma fmdrop_fmupd_fmempty: "fmdrop t (fmupd t p fmempty) = fmempty"
  by (rule fmap_ext) simp

lemma call_events_exec:
  "exec_events (call_events t c st) \<lparr>shared = st, pending = fmempty\<rparr> =
     Some \<lparr>shared = snd (api c st), pending = fmempty\<rparr>"
  by (cases c)
     (simp_all add: GetHash_def Let_def fmdrop_fmupd_fmempty split: option.splits)

lemma call_events_apart:
  "clear_apart (call_events t c st) \<lparr>shared = st, pending = fmempty\<rparr>"
  by (cases c)
     (simp_all add: detect_pending_def split: option.splits)

lemma exec_events_append:
  "exec_events (es @ fs) cf =
     (case exec_events es cf of None \<Rightarrow> None | Some cf' \<Rightarrow> exec_events fs cf')"
  by (induction es arbitrary: cf) (simp_all split: option.splits)

lemma clear_apart_append:
  "exec_events es cf = Some cf' \<Longrightarrow>
   clear_apart (es @ fs) cf \<longleftrightarrow> clear_apart es cf \<and> clear_apart fs cf'"
  by (induction es arbitrary: cf) (auto split: option.splits)

lemma calls_events_exec:
  "exec_events (calls_events t cs st) \<lparr>shared = st, pending = fmempty\<rparr> =
     Some \<lparr>shared = run cs st, pending = fmempty\<rparr>"
  by (induction cs arbitrary: st)
     (simp_all add: exec_events_append call_events_exec del: call_events.simps api.simps)

lemma calls_events_apart:
  "clear_apart (calls_events t cs st) \<lparr>shared = st, pending = fmempty\<rparr>"
  by (induction cs arbitrary: st)
     (simp_all add: clear_apart_append [OF call_events_exec] call_events_apart
        del: call_events.simps api.simps)

lemmas conf_eval = init_conf_def init_state_def GetHash_lookup_def GetHash_store_def
  detectHashCollision_def collision_report_def debug_Printfln_def ClearHashCache_def
  detect_pending_def DBJ2HashStr_def DBJ2Hash_def bytes_of_def dbj2_step_def fold_byte_def
  fmdrop_fmupd_fmempty


subsection \<open>C10: the registry and the cache when calls interleave\<close>

text \<open>
  C10 says that after every sequence of \<open>GetHash\<close>, \<open>GetHashWithAlgorithm\<close> and
  \<open>ClearHashCache\<close> operations every key of the collision registry is the default
  hash of a cached string, that \<open>collisions\<close> therefore always equals
  \<open>total_entries - unique_hashes\<close>, and that the branch of \<open>GetHashCacheStats\<close>
  leaving \<open>collisions\<close> at zero is only reached with the two counts equal. This
  holds of every schedule of critical sections in which \<open>ClearHashCache\<close> does not
  begin while a goroutine is between the store of \<open>GetHash\<close> and its
  \<open>detectHashCollision\<close>, at every moment of the schedule; calls that run one after
  the other are such a schedule. It does not hold of every schedule: \<open>GetHash\<close>
  releases \<open>hashCacheMutex\<close> before \<open>detectHashCollision\<close> takes \<open>collisionMutex\<close>,
  and a \<open>ClearHashCache\<close> in between leaves the registry with a key whose string is no
  longer cached, \<open>unique_hashes = 1\<close> above \<open>total_entries = 0\<close>.
\<close>

theorem registry_within_cache_unless_clear_between:
  assumes "exec_events es init_conf = Some cf" and "clear_apart es init_conf"
  shows "(\<forall>h. h |\<in>| fmdom (collisionDetector (shared cf)) \<longrightarrow>
            (\<exists>s. s |\<in>| fmdom (HashCache (shared cf)) \<and> DBJ2HashStr s = h)) \<and>
         fcard (fmdom (collisionDetector (shared cf))) \<le> fcard (fmdom (HashCache (shared cf))) \<and>
         collisions (GetHashCacheStats (shared cf)) =
           total_entries (GetHashCacheStats (shared cf)) -
           unique_hashes (GetHashCacheStats (shared cf)) \<and>
         (\<not> total_entries (GetHashCacheStats (shared cf)) >
              unique_hashes (GetHashCacheStats (shared cf)) \<longrightarrow>
            total_entries (GetHashCacheStats (shared cf)) =
            unique_hashes (GetHashCacheStats (shared cf))) \<and>
         exec_events (calls_events t cs init_state) init_conf =
           Some \<lparr>shared = run cs init_state, pending = fmempty\<rparr> \<and>
         clear_apart (calls_events t cs init_state) init_conf"
proof -
  let ?st = "shared cf"
  have inv: "conf_inv cf" using conf_inv_init assms by (rule conf_inv_events)
  have 1: "\<forall>h. h |\<in>| fmdom (collisionDetector ?st) \<longrightarrow>
      (\<exists>s. s |\<in>| fmdom (HashCache ?st) \<and> DBJ2HashStr s = h)"
  proof (intro allI impI)
    fix h assume "h |\<in>| fmdom (collisionDetector ?st)"
    then obtain e where "fmlookup (collisionDetector ?st) h = Some e"
      by (auto simp: fmlookup_dom_iff)
    with inv have "e |\<in>| fmdom (HashCache ?st) \<and> DBJ2HashStr e = h"
      by (simp add: conf_inv_def)
    then show "\<exists>s. s |\<in>| fmdom (HashCache ?st) \<and> DBJ2HashStr s = h" ..
  qed
  have 2: "fcard (fmdom (collisionDetector ?st)) \<le> fcard (fmdom (HashCache ?st))"
    using inv by (rule conf_inv_registry_le)
  have t: "total_entries (GetHashCacheStats ?st) = int (fcard (fmdom (HashCache ?st)))"
    by (simp add: GetHashCacheStats_def Let_def)
  have u: "unique_hashes (GetHashCacheStats ?st) = int (fcard (fmdom (collisionDetector ?st)))"
    by (simp add: GetHashCacheStats_def Let_def)
  have c: "collisions (GetHashCacheStats ?st) =
      (if total_entries (GetHashCacheStats ?st) > unique_hashes (GetHashCacheStats ?st)
       then total_entries (GetHashCacheStats ?st) - unique_hashes (GetHashCacheStats ?st)
       else 0)"
    by (simp add: GetHashCacheStats_def Let_def)
  from 2 have le: "unique_hashes (GetHashCacheStats ?st) \<le> total_entries (GetHashCacheStats ?st)"
    unfolding t u by (rule iffD2 [OF of_nat_le_iff])
  from le have 3: "collisions (GetHashCacheStats ?st) =
     total_entries (GetHashCacheStats ?st) - unique_hashes (GetHashCacheStats ?st)"
    unfolding c by arith
  from le have 4: "\<not> total_entries (GetHashCacheStats ?st) > unique_hashes (GetHashCacheStats ?st) \<longrightarrow>
      total_entries (GetHashCacheStats ?st) = unique_hashes (GetHashCacheStats ?st)"
    by arith
  have 5: "exec_events (calls_events t cs init_state) init_conf =
      Some \<lparr>shared = run cs init_state, pending = fmempty\<rparr>"
    unfolding init_conf_def by (rule calls_events_exec)
  have 6: "clear_apart (calls_events t cs init_state) init_conf"
    unfolding init_conf_def by (rule calls_events_apart)
  from 1 2 3 4 5 6 show ?thesis by (intro conjI)
qed

theorem registry_within_cache_unless_clear_between_witness:
  "map_option shared
     (exec_events [Begin 0 (CallGetHash ''a''), Begin 1 (CallGetHash ''A''), Advance 0, Advance 1,
        Advance 1, Advance 0, Begin 1 (CallGetHash ''b''), Advance 1, Advance 1] init_conf) =
     Some \<lparr>HashCache = fmupd ''b'' 177639 (fmupd ''A'' 177638 (fmupd ''a'' 177638 fmempty)),
           collisionDetector = fmupd 177639 ''b'' (fmupd 177638 ''A'' fmempty),
           debug_out =
             [(''OBF'', [ArgStr ''Warning: Hash collision detected!'']),
              (''OBF'', [ArgStr ''  Hash:'', ArgU32 177638]),
              (''OBF'', [ArgStr ''  Existing string:'', ArgStr ''A'']),
              (''OBF'', [ArgStr ''  New string:'', ArgStr ''a''])]\<rparr> \<and>
   clear_apart [Begin 0 (CallGetHash ''a''), Begin 1 (CallGetHash ''A''), Advance 0, Advance 1,
        Advance 1, Advance 0, Begin 1 (CallGetHash ''b''), Advance 1, Advance 1] init_conf \<and>
   GetHashCacheStats
     \<lparr>HashCache = fmupd ''b'' 177639 (fmupd ''A'' 177638 (fmupd ''a'' 177638 fmempty)),
      collisionDetector = fmupd 177639 ''b'' (fmupd 177638 ''A'' fmempty),
      debug_out =
        [(''OBF'', [ArgStr ''Warning: Hash collision detected!'']),
         (''OBF'', [ArgStr ''  Hash:'', ArgU32 177638]),
         (''OBF'', [ArgStr ''  Existing string:'', ArgStr ''A'']),
         (''OBF'', [ArgStr ''  New string:'', ArgStr ''a''])]\<rparr> =
     \<lparr>total_entries = 3, unique_hashes = 2, collisions = 1, cache_hit_ratio = 0\<rparr> \<and>
   DBJ2HashStr ''A'' = 177638 \<and> DBJ2HashStr ''b'' = 177639 \<and>
   map_option shared
     (exec_events [Begin 0 (CallGetHash ''a''), Begin 1 CallClearHashCache, Advance 0, Advance 0]
        init_conf) =
     Some \<lparr>HashCache = fmupd ''a'' 177638 fmempty,
           collisionDetector = fmupd 177638 ''a'' fmempty, debug_out = []\<rparr> \<and>
   clear_apart [Begin 0 (CallGetHash ''a''), Begin 1 CallClearHashCache, Advance 0, Advance 0]
     init_conf \<and>
   GetHashCacheStats
     \<lparr>HashCache = fmupd ''a'' 177638 fmempty,
      collisionDetector = fmupd 177638 ''a'' fmempty, debug_out = []\<rparr> =
     \<lparr>total_entries = 1, unique_hashes = 1, collisions = 0, cache_hit_ratio = 0\<rparr>"
proof -
  let ?es = "[Begin 0 (CallGetHash ''a''), Begin 1 (CallGetHash ''A''), Advance 0, Advance 1,
        Advance 1, Advance 0, Begin 1 (CallGetHash ''b''), Advance 1, Advance 1]"
  let ?fs = "[Begin 0 (CallGetHash ''a''), Begin 1 CallClearHashCache, Advance 0, Advance 0]"
  let ?X = "\<lparr>HashCache = fmupd ''b'' 177639 (fmupd ''A'' 177638 (fmupd ''a'' 177638 fmempty)),
      collisionDetector = fmupd 177639 ''b'' (fmupd 177638 ''A'' fmempty),
      debug_out =
        [(''OBF'', [ArgStr ''Warning: Hash collision detected!'']),
         (''OBF'', [ArgStr ''  Hash:'', ArgU32 177638]),
         (''OBF'', [ArgStr ''  Existing string:'', ArgStr ''A'']),
         (''OBF'', [ArgStr ''  New string:'', ArgStr ''a''])]\<rparr>"
  let ?Y = "\<lparr>HashCache = fmupd ''a'' 177638 fmempty,
      collisionDetector = fmupd 177638 ''a'' fmempty, debug_out = []\<rparr>"
  have h: "DBJ2HashStr ''a'' = 177638" "DBJ2HashStr ''A'' = 177638" "DBJ2HashStr ''b'' = 177639"
    by (simp_all add: DBJ2HashStr_def DBJ2Hash_def bytes_of_def dbj2_step_def fold_byte_def)
  obtain cf where e: "exec_events ?es init_conf = Some cf" and x: "shared cf = ?X"
    by (simp add: h conf_eval)
  have a: "clear_apart ?es init_conf"
    by (simp add: h conf_eval)
  obtain cg where f: "exec_events ?fs init_conf = Some cg" and y: "shared cg = ?Y"
    by (simp add: h conf_eval)
  have b: "clear_apart ?fs init_conf"
    by (simp add: h conf_eval)
  from registry_within_cache_unless_clear_between [OF e a]
  have "collisions (GetHashCacheStats ?X) =
      total_entries (GetHashCacheStats ?X) - unique_hashes (GetHashCacheStats ?X)"
    unfolding x by blast
  moreover have "total_entries (GetHashCacheStats ?X) = 3" "unique_hashes (GetHashCacheStats ?X) = 2"
    by (simp_all add: GetHashCacheStats_def Let_def fcard_finsert_if fcard_fempty)
  ultimately have sx: "GetHashCacheStats ?X =
      \<lparr>total_entries = 3, unique_hashes = 2, collisions = 1, cache_hit_ratio = 0\<rparr>"
    by (simp add: GetHashCacheStats_def Let_def)
  have ty: "total_entries (GetHashCacheStats ?Y) = 1" "unique_hashes (GetHashCacheStats ?Y) = 1"
    by (simp_all add: GetHashCacheStats_def Let_def fcard_finsert_if fcard_fempty)
  then have "\<not> total_entries (GetHashCacheStats ?Y) > unique_hashes (GetHashCacheStats ?Y)"
    by simp
  with registry_within_cache_unless_clear_between [OF f b]
  have "collisions (GetHashCacheStats ?Y) =
      total_entries (GetHashCacheStats ?Y) - unique_hashes (GetHashCacheStats ?Y)"
    unfolding y by blast
  with ty have sy: "GetHashCacheStats ?Y =
      \<lparr>total_entries = 1, unique_hashes = 1, collisions = 0, cache_hit_ratio = 0\<rparr>"
    by (simp add: GetHashCacheStats_def Let_def)
  from e x have ex: "map_option shared (exec_events ?es init_conf) = Some ?X" by simp
  from f y have fy: "map_option shared (exec_events ?fs init_conf) = Some ?Y" by simp
  from ex a sx h(2,3) fy b sy show ?thesis by (intro conjI)
qed

theorem clear_between_store_and_detect_counterexample:
  "map_option shared
     (exec_events [Begin 0 (CallGetHash ''a''), Advance 0, Begin 1 CallClearHashCache, Advance 0]
        init_conf) =
     Some \<lparr>HashCache = fmempty, collisionDetector = fmupd 177638 ''a'' fmempty,
           debug_out = []\<rparr> \<and>
   fmdom (collisionDetector \<lparr>HashCache = fmempty,
      collisionDetector = fmupd 177638 ''a'' fmempty, debug_out = []\<rparr>) = {|177638|} \<and>
   fmdom (HashCache \<lparr>HashCache = fmempty,
      collisionDetector = fmupd 177638 ''a'' fmempty, debug_out = []\<rparr>) = {||} \<and>
   GetHashCacheStats \<lparr>HashCache = fmempty, collisionDetector = fmupd 177638 ''a'' fmempty,
      debug_out = []\<rparr> =
     \<lparr>total_entries = 0, unique_hashes = 1, collisions = 0, cache_hit_ratio = 0\<rparr> \<and>
   \<not> total_entries (GetHashCacheStats \<lparr>HashCache = fmempty,
        collisionDetector = fmupd 177638 ''a'' fmempty, debug_out = []\<rparr>) >
     unique_hashes (GetHashCacheStats \<lparr>HashCache = fmempty,
        collisionDetector = fmupd 177638 ''a'' fmempty, debug_out = []\<rparr>) \<and>
   total_entries (GetHashCacheStats \<lparr>HashCache = fmempty,
        collisionDetector = fmupd 177638 ''a'' fmempty, debug_out = []\<rparr>) \<noteq>
     unique_hashes (GetHashCacheStats \<lparr>HashCache = fmempty,
        collisionDetector = fmupd 177638 ''a'' fmempty, debug_out = []\<rparr>) \<and>
   collisions (GetHashCacheStats \<lparr>HashCache = fmempty,
        collisionDetector = fmupd 177638 ''a'' fmempty, debug_out = []\<rparr>) \<noteq>
     total_entries (GetHashCacheStats \<lparr>HashCache = fmempty,
        collisionDetector = fmupd 177638 ''a'' fmempty, debug_out = []\<rparr>) -
     unique_hashes (GetHashCacheStats \<lparr>HashCache = fmempty,
        collisionDetector = fmupd 177638 ''a'' fmempty, debug_out = []\<rparr>)"
proof -
  have h: "DBJ2HashStr ''a'' = 177638"
    by (simp add: DBJ2HashStr_def DBJ2Hash_def bytes_of_def dbj2_step_def fold_byte_def)
  have 1: "map_option shared
     (exec_events [Begin 0 (CallGetHash ''a''), Advance 0, Begin 1 CallClearHashCache, Advance 0]
        init_conf) =
     Some \<lparr>HashCache = fmempty, collisionDetector = fmupd 177638 ''a'' fmempty,
           debug_out = []\<rparr>"
    by (simp add: h conf_eval)
  have 2: "GetHashCacheStats \<lparr>HashCache = fmempty, collisionDetector = fmupd 177638 ''a'' fmempty,
      debug_out = []\<rparr> =
     \<lparr>total_entries = 0, unique_hashes = 1, collisions = 0, cache_hit_ratio = 0\<rparr>"
    by (simp add: GetHashCacheStats_def Let_def fcard_finsert_if fcard_fempty)
  from 1 show ?thesis unfolding 2 by simp
qed

section \<open>Properties of do_syscall\<close>

subsection \<open>The branch, the copy loop and the stack cells\<close>

text \<open>After \<open>sub rcx, 0x4\<close> the jump \<open>jle\<close> compares the old \<open>rcx\<close> with 4 as signed numbers.\<close>

lemma sign_bit_sint: "sign_bit w \<longleftrightarrow> sint w < 0"
  unfolding sign_bit_def using bit_last_iff [of w] by simp

lemma jle_after_sub: "jle_taken (sub_rcx 0x4 s) \<longleftrightarrow> sint (rcx s) \<le> 4"
proof -
  let ?a = "rcx s"
  let ?r = "rcx s - 4"
  have lo: "- (2 ^ 63) \<le> sint ?a" using sint_ge [of ?a] by simp
  have hi: "sint ?a < 2 ^ 63" using sint_lt [of ?a] by simp
  have r: "sint ?r = signed_take_bit 63 (sint ?a - 4)"
    by (simp add: sint_word_diff)
  have z: "?r = 0 \<longleftrightarrow> sint ?a = 4"
  proof
    assume "?r = 0"
    then have "?a = 4" by simp
    then show "sint ?a = 4" by simp
  next
    assume "sint ?a = 4"
    then have "sint ?a = sint (4 :: u64)" by simp
    then have "?a = 4" by (rule signed_word_eqI)
    then show "?r = 0" by simp
  qed
  have s4: "\<not> sign_bit (4 :: u64)" by (simp add: sign_bit_def)
  have cond: "jle_taken (sub_rcx 0x4 s) \<longleftrightarrow>
      (sint ?a = 4 \<or> (sint ?r < 0) \<noteq> (sint ?a < 0 \<and> \<not> sint ?r < 0))"
    using s4 z by (auto simp: jle_taken_def sub_rcx_def Let_def sign_bit_sint)
  show ?thesis
  proof (cases "- (2 ^ 63) \<le> sint ?a - 4")
    case True
    with hi have "signed_take_bit 63 (sint ?a - 4) = sint ?a - 4"
      by (simp add: signed_take_bit_int_eq_self_iff)
    with r have "sint ?r = sint ?a - 4" by simp
    with cond show ?thesis by auto
  next
    case False
    then have "sint ?a - 4 < - (2 ^ 63)" by simp
    from signed_take_bit_int_greater_eq [OF this] r have "sint ?a - 4 + 2 ^ 64 \<le> sint ?r" by simp
    with lo False cond show ?thesis by auto
  qed
qed

lemma unat_cell: "i < 2 ^ 60 \<Longrightarrow> k < 2 ^ 60 \<Longrightarrow> unat (of_nat k + 8 * of_nat i :: u64) = k + 8 * i"
  by (simp add: unat_word_ariths unat_of_nat)

lemma cell_eq_iff:
  assumes "i < 2 ^ 60" "j < 2 ^ 60" "k < 2 ^ 60" "l < 2 ^ 60"
  shows "(p + of_nat k + 8 * of_nat i :: u64) = p + of_nat l + 8 * of_nat j \<longleftrightarrow> k + 8 * i = l + 8 * j"
proof -
  have "(p + of_nat k + 8 * of_nat i :: u64) = p + of_nat l + 8 * of_nat j \<longleftrightarrow>
      (of_nat k + 8 * of_nat i :: u64) = of_nat l + 8 * of_nat j"
    by (simp add: add.assoc)
  also have "\<dots> \<longleftrightarrow> unat (of_nat k + 8 * of_nat i :: u64) = unat (of_nat l + 8 * of_nat j :: u64)"
    by (simp add: word_unat_eq_iff)
  also have "\<dots> \<longleftrightarrow> k + 8 * i = l + 8 * j"
    using assms by (simp only: unat_cell)
  finally show ?thesis .
qed

lemma cell_Suc: "x + 8 + 8 * of_nat i = x + 8 * of_nat (Suc i)" for x :: u64
  by (simp add: algebra_simps)

lemma copy_up_outside:
  "\<forall>i<n. a \<noteq> dst + 8 * of_nat i \<Longrightarrow> copy_up m src dst n a = m a"
proof (induction n arbitrary: m src dst)
  case 0
  show ?case by simp
next
  case (Suc n)
  have "\<forall>i<n. a \<noteq> dst + 8 + 8 * of_nat i"
  proof (intro allI impI)
    fix i assume "i < n"
    then have "Suc i < Suc n" by simp
    then have "a \<noteq> dst + 8 * of_nat (Suc i)" by (rule Suc.prems [rule_format])
    then show "a \<noteq> dst + 8 + 8 * of_nat i" unfolding cell_Suc .
  qed
  then have "copy_up (m(dst := m src)) (src + 8) (dst + 8) n a = (m(dst := m src)) a"
    by (rule Suc.IH)
  moreover have "a \<noteq> dst" using Suc.prems [rule_format, of 0] by simp
  ultimately show ?case by simp
qed

lemma copy_up_inside:
  assumes "\<forall>i<n. \<forall>j<n. i < j \<longrightarrow> dst + 8 * of_nat i \<noteq> src + 8 * of_nat j"
    and "\<forall>i<n. \<forall>j<n. i < j \<longrightarrow> dst + 8 * of_nat i \<noteq> dst + 8 * of_nat j"
    and "k < n"
  shows "copy_up m src dst n (dst + 8 * of_nat k) = m (src + 8 * of_nat k)"
  using assms
proof (induction n arbitrary: m src dst k)
  case 0
  then show ?case by simp
next
  case (Suc n)
  let ?m = "m(dst := m src)"
  have shift: "x + 8 + 8 * of_nat i = x + 8 * of_nat (Suc i)" for x :: u64 and i
    by (simp add: algebra_simps)
  show ?case
  proof (cases k)
    case 0
    have "\<forall>i<n. dst \<noteq> dst + 8 + 8 * of_nat i"
    proof (intro allI impI)
      fix i assume "i < n"
      then have "dst + 8 * of_nat 0 \<noteq> dst + 8 * of_nat (Suc i)"
        using Suc.prems(2) by (metis Suc_less_eq zero_less_Suc)
      then show "dst \<noteq> dst + 8 + 8 * of_nat i" by (simp add: algebra_simps)
    qed
    then have "copy_up ?m (src + 8) (dst + 8) n dst = ?m dst" by (rule copy_up_outside)
    with 0 show ?thesis by simp
  next
    case (Suc k')
    with Suc.prems(3) have k': "k' < n" by simp
    have a: "\<forall>i<n. \<forall>j<n. i < j \<longrightarrow> dst + 8 + 8 * of_nat i \<noteq> src + 8 + 8 * of_nat j"
      unfolding shift using Suc.prems(1) by (metis Suc_less_eq)
    have b: "\<forall>i<n. \<forall>j<n. i < j \<longrightarrow> dst + 8 + 8 * of_nat i \<noteq> dst + 8 + 8 * of_nat j"
      unfolding shift using Suc.prems(2) by (metis Suc_less_eq)
    have "copy_up ?m (src + 8) (dst + 8) n (dst + 8 + 8 * of_nat k') = ?m (src + 8 + 8 * of_nat k')"
      using a b k' by (rule Suc.IH)
    moreover have "dst + 8 * of_nat 0 \<noteq> src + 8 * of_nat (Suc k')"
      using Suc.prems(1) k' by (metis Suc_less_eq zero_less_Suc)
    then have "dst \<noteq> src + 8 + 8 * of_nat k'" by (simp add: algebra_simps)
    ultimately show ?thesis unfolding Suc shift by simp
  qed
qed

lemma rep_movsq_up:
  "\<not> DF s \<Longrightarrow>
   rep_movsq s =
     s\<lparr>mem := copy_up (mem s) (rsi s) (rdi s) (unat (rcx s)),
       rsi := rsi s + 8 * rcx s, rdi := rdi s + 8 * rcx s, rcx := 0\<rparr>"
proof (induction s rule: rep_movsq.induct)
  case (1 s)
  show ?case
  proof (cases "rcx s = 0")
    case True
    then show ?thesis by (simp add: rep_movsq.simps [of s])
  next
    case False
    then have n: "unat (rcx s) = Suc (unat (rcx s - 1))"
      by (simp add: unat_minus_one unat_gt_0)
    have df: "\<not> DF (rep_step s)" using "1.prems" by (simp add: rep_step_def movsq_def Let_def)
    have "rep_movsq s = rep_movsq (rep_step s)" using False by (simp add: rep_movsq.simps [of s])
    also have "\<dots> = (rep_step s)\<lparr>mem := copy_up (mem (rep_step s)) (rsi (rep_step s))
        (rdi (rep_step s)) (unat (rcx (rep_step s))),
       rsi := rsi (rep_step s) + 8 * rcx (rep_step s),
       rdi := rdi (rep_step s) + 8 * rcx (rep_step s), rcx := 0\<rparr>"
      using False df by (rule "1.IH")
    also have "\<dots> = s\<lparr>mem := copy_up (mem s) (rsi s) (rdi s) (unat (rcx s)),
       rsi := rsi s + 8 * rcx s, rdi := rdi s + 8 * rcx s, rcx := 0\<rparr>"
      using "1.prems" unfolding n by (simp add: rep_step_def movsq_def Let_def algebra_simps)
    finally show ?thesis .
  qed
qed

lemma cells_differ:
  assumes "i < 2 ^ 60" "j < 2 ^ 60" "k < 2 ^ 60" "l < 2 ^ 60" and "k + 8 * i \<noteq> l + 8 * j"
  shows "(p + of_nat k + 8 * of_nat i :: u64) \<noteq> p + of_nat l + 8 * of_nat j"
  using cell_eq_iff [OF assms(1-4)] assms(5) by simp

text \<open>The stack cells the routine touches are pairwise distinct.\<close>

lemma dst_before_src:
  fixes sp :: u64
  assumes "i < j" and "j < 2 ^ 60"
  shows "sp + 0x28 + 8 * of_nat i \<noteq> sp + 0x38 + 8 * of_nat j"
  using cells_differ [of i j 56 72 "sp - 0x10"] assms by simp

lemma dst_distinct:
  fixes sp :: u64
  assumes "i < j" and "j < 2 ^ 60"
  shows "sp + 0x28 + 8 * of_nat i \<noteq> sp + 0x28 + 8 * of_nat j"
  using cells_differ [of i j 56 56 "sp - 0x10"] assms by simp

lemma slots_not_dst:
  fixes sp :: u64
  assumes "i < 2 ^ 60"
  shows "sp - 0x8 \<noteq> sp + 0x28 + 8 * of_nat i" and "sp - 0x10 \<noteq> sp + 0x28 + 8 * of_nat i"
  using cells_differ [of 0 i 8 56 "sp - 0x10"] cells_differ [of 0 i 0 56 "sp - 0x10"] assms
  by simp_all

lemma slots_not_src:
  fixes sp :: u64
  assumes "i < 2 ^ 60"
  shows "sp + 0x38 + 8 * of_nat i \<noteq> sp - 0x8" and "sp + 0x38 + 8 * of_nat i \<noteq> sp - 0x10"
  using cells_differ [of i 0 72 8 "sp - 0x10"] cells_differ [of i 0 72 0 "sp - 0x10"] assms
  by simp_all


subsection \<open>The state at the \<open>syscall\<close> instruction\<close>

lemma count_minus_4:
  fixes w :: u64
  assumes "4 < sint w"
  shows "unat (w - 4) = nat (sint w - 4)"
proof -
  have "sint w < 2 ^ 63" using sint_lt [of w] by simp
  then have "sint w < 2 ^ 64" by simp
  with assms have "take_bit 64 (sint w) = sint w" by (simp add: take_bit_int_eq_self)
  then have u: "uint w = sint w" using uint_sint [of w] by simp
  then have n: "unat w = nat (sint w)" by (simp add: unat_eq_nat_uint)
  with assms have "unat (4 :: u64) \<le> unat w" by simp
  then have "4 \<le> w" by (simp add: word_le_nat_alt)
  then have "unat (w - 4) = unat w - unat (4 :: u64)" by (rule unat_sub)
  with n show ?thesis by simp
qed

lemma prologue_fields:
  "rcx (do_syscall_prologue s) = rdx s"
  "rsp (do_syscall_prologue s) = rsp s"
  "rsi (do_syscall_prologue s) = rsi s"
  "rdi (do_syscall_prologue s) = rdi s"
  "DF (do_syscall_prologue s) = DF s"
  "mem (do_syscall_prologue s) = (mem s)(rsp s - 0x8 := rsi s, rsp s - 0x10 := rdi s)"
  "rax (do_syscall_prologue s) = ucast (ucast (rcx s) :: 32 word)"
  "r10 (do_syscall_prologue s) = r8 s"
  "rdx (do_syscall_prologue s) = r9 s"
  by (simp_all add: do_syscall_prologue_def Let_def)

lemma sub_rcx_fields:
  "rcx (sub_rcx imm s) = rcx s - imm"
  "rsp (sub_rcx imm s) = rsp s"
  "rsi (sub_rcx imm s) = rsi s"
  "rdi (sub_rcx imm s) = rdi s"
  "DF (sub_rcx imm s) = DF s"
  "mem (sub_rcx imm s) = mem s"
  "rax (sub_rcx imm s) = rax s"
  by (simp_all add: sub_rcx_def Let_def)

lemma spill_fields:
  assumes "\<not> DF s"
  shows "mem (spill s) = copy_up (mem s) (rsp s + 0x38) (rsp s + 0x28) (unat (rcx s))"
    and "rsp (spill s) = rsp s"
    and "rax (spill s) = rax s"
    and "rcx (spill s) = 0"
  using assms by (simp_all add: spill_def Let_def rep_movsq_up)

lemma marshal_skip:
  "sint (rdx s) \<le> 4 \<Longrightarrow> do_syscall_marshal s = sub_rcx 0x4 (do_syscall_prologue s)"
  by (simp add: do_syscall_marshal_def Let_def jle_after_sub prologue_fields)

lemma marshal_spill:
  "4 < sint (rdx s) \<Longrightarrow> do_syscall_marshal s = spill (sub_rcx 0x4 (do_syscall_prologue s))"
  by (simp add: do_syscall_marshal_def Let_def jle_after_sub prologue_fields)

lemma marshal_mem_skip:
  "sint (rdx s) \<le> 4 \<Longrightarrow>
   mem (do_syscall_marshal s) = (mem s)(rsp s - 0x8 := rsi s, rsp s - 0x10 := rdi s)"
  by (simp add: marshal_skip sub_rcx_fields prologue_fields)

lemma marshal_mem_spill:
  "4 < sint (rdx s) \<Longrightarrow> \<not> DF s \<Longrightarrow>
   mem (do_syscall_marshal s) =
     copy_up ((mem s)(rsp s - 0x8 := rsi s, rsp s - 0x10 := rdi s))
       (rsp s + 0x38) (rsp s + 0x28) (nat (sint (rdx s) - 4))"
  by (simp add: marshal_spill spill_fields sub_rcx_fields prologue_fields count_minus_4)

lemma marshal_rsp: "\<not> DF s \<Longrightarrow> rsp (do_syscall_marshal s) = rsp s"
  by (cases "sint (rdx s) \<le> 4")
     (simp_all add: marshal_skip marshal_spill spill_fields sub_rcx_fields prologue_fields)


lemma extra_count_bound:
  assumes "sint (w :: u64) < 2 ^ 60" and "i < nat (sint w - 4)"
  shows "i < 2 ^ 60"
proof -
  from assms(2) have "int i < sint w - 4" by (simp add: zless_nat_eq_int_zless)
  with assms(1) have "int i < 2 ^ 60" by linarith
  then show ?thesis by (simp only: of_nat_less_numeral_power_cancel_iff)
qed

lemma marshal_slots:
  assumes "\<not> DF s" and "sint (rdx s) < 2 ^ 60"
  shows "mem (do_syscall_marshal s) (rsp s - 0x8) = rsi s"
    and "mem (do_syscall_marshal s) (rsp s - 0x10) = rdi s"
proof -
  let ?M = "(mem s)(rsp s - 0x8 := rsi s, rsp s - 0x10 := rdi s)"
  let ?n = "nat (sint (rdx s) - 4)"
  have ne: "rsp s - 0x8 \<noteq> rsp s - 0x10" by simp
  then have M: "?M (rsp s - 0x8) = rsi s" "?M (rsp s - 0x10) = rdi s" by simp_all
  have a: "\<forall>i<?n. rsp s - 0x8 \<noteq> rsp s + 0x28 + 8 * of_nat i"
    using slots_not_dst(1) extra_count_bound [OF assms(2)] by blast
  have b: "\<forall>i<?n. rsp s - 0x10 \<noteq> rsp s + 0x28 + 8 * of_nat i"
    using slots_not_dst(2) extra_count_bound [OF assms(2)] by blast
  show "mem (do_syscall_marshal s) (rsp s - 0x8) = rsi s"
  proof (cases "sint (rdx s) \<le> 4")
    case True
    then show ?thesis using M(1) by (simp only: marshal_mem_skip)
  next
    case False
    then have c: "4 < sint (rdx s)" by simp
    from a have "copy_up ?M (rsp s + 0x38) (rsp s + 0x28) ?n (rsp s - 0x8) = ?M (rsp s - 0x8)"
      by (rule copy_up_outside)
    then show ?thesis using M(1) by (simp only: marshal_mem_spill [OF c assms(1)])
  qed
  show "mem (do_syscall_marshal s) (rsp s - 0x10) = rdi s"
  proof (cases "sint (rdx s) \<le> 4")
    case True
    then show ?thesis using M(2) by (simp only: marshal_mem_skip)
  next
    case False
    then have c: "4 < sint (rdx s)" by simp
    from b have "copy_up ?M (rsp s + 0x38) (rsp s + 0x28) ?n (rsp s - 0x10) = ?M (rsp s - 0x10)"
      by (rule copy_up_outside)
    then show ?thesis using M(2) by (simp only: marshal_mem_spill [OF c assms(1)])
  qed
qed

lemma epilogue_fields:
  "rsi (do_syscall_epilogue t) = mem t (rsp t - 0x8)"
  "rdi (do_syscall_epilogue t) = mem t (rsp t - 0x10)"
  "rax (do_syscall_epilogue t) = rax t"
  "rsp (do_syscall_epilogue t) = rsp t + 8"
  "rip (do_syscall_epilogue t) = mem t (rsp t)"
  by (simp_all add: do_syscall_epilogue_def Let_def)

lemmas asm_eval = do_syscall_def do_syscall_epilogue_def do_syscall_marshal_def
  do_syscall_prologue_def sub_rcx_def sign_bit_def jle_taken_def spill_def rep_step_def
  movsq_def Let_def rep_movsq.simps


subsection \<open>C2: the spill of the arguments beyond the fourth\<close>

text \<open>
  C2: the argument count arrives in \<open>rdx\<close> and is compared with 4 as a signed number.
  With a count of at most 4 the copy is skipped: the memory at the \<open>syscall\<close>
  instruction is the caller's but for the two slots holding \<open>rsi\<close> and \<open>rdi\<close>, and
  the two registers are untouched. With a count above 4, and the direction flag clear
  as the calling convention has it, exactly \<open>count - 4\<close> quadwords are copied one by
  one, lowest address first, from \<open>[rsp + 0x38]\<close> to \<open>[rsp + 0x28]\<close>; for a count
  below \<open>2 ^ 60\<close> (the addresses do not wrap around) the \<open>i\<close>-th destination word
  then holds the caller's \<open>i\<close>-th source word, and no other word of memory but the
  two slots has changed. Every count gives a result: there is no error.
\<close>

theorem spill_copies_extra_arguments:
  "(sint (rdx s) \<le> 4 \<longrightarrow>
      mem (do_syscall_marshal s) = (mem s)(rsp s - 0x8 := rsi s, rsp s - 0x10 := rdi s) \<and>
      rsi (do_syscall_marshal s) = rsi s \<and> rdi (do_syscall_marshal s) = rdi s) \<and>
   (4 < sint (rdx s) \<and> \<not> DF s \<longrightarrow>
      mem (do_syscall_marshal s) =
        copy_up ((mem s)(rsp s - 0x8 := rsi s, rsp s - 0x10 := rdi s))
          (rsp s + 0x38) (rsp s + 0x28) (nat (sint (rdx s) - 4)) \<and>
      (sint (rdx s) < 2 ^ 60 \<longrightarrow>
         (\<forall>i < nat (sint (rdx s) - 4).
            mem (do_syscall_marshal s) (rsp s + 0x28 + 8 * of_nat i) =
            mem s (rsp s + 0x38 + 8 * of_nat i)) \<and>
         (\<forall>a. a \<noteq> rsp s - 0x8 \<and> a \<noteq> rsp s - 0x10 \<and>
              (\<forall>i < nat (sint (rdx s) - 4). a \<noteq> rsp s + 0x28 + 8 * of_nat i) \<longrightarrow>
              mem (do_syscall_marshal s) a = mem s a)))"
proof (intro conjI impI)
  assume "sint (rdx s) \<le> 4"
  then show "mem (do_syscall_marshal s) = (mem s)(rsp s - 0x8 := rsi s, rsp s - 0x10 := rdi s)"
    by (rule marshal_mem_skip)
next
  assume "sint (rdx s) \<le> 4"
  then show "rsi (do_syscall_marshal s) = rsi s"
    by (simp add: marshal_skip sub_rcx_fields prologue_fields)
next
  assume "sint (rdx s) \<le> 4"
  then show "rdi (do_syscall_marshal s) = rdi s"
    by (simp add: marshal_skip sub_rcx_fields prologue_fields)
next
  assume "4 < sint (rdx s) \<and> \<not> DF s"
  then have "4 < sint (rdx s)" and "\<not> DF s" by simp_all
  then show "mem (do_syscall_marshal s) =
        copy_up ((mem s)(rsp s - 0x8 := rsi s, rsp s - 0x10 := rdi s))
          (rsp s + 0x38) (rsp s + 0x28) (nat (sint (rdx s) - 4))"
    by (rule marshal_mem_spill)
next
  let ?M = "(mem s)(rsp s - 0x8 := rsi s, rsp s - 0x10 := rdi s)"
  let ?n = "nat (sint (rdx s) - 4)"
  assume c: "4 < sint (rdx s) \<and> \<not> DF s" and bound: "sint (rdx s) < 2 ^ 60"
  have m: "mem (do_syscall_marshal s) = copy_up ?M (rsp s + 0x38) (rsp s + 0x28) ?n"
    using conjunct1 [OF c] conjunct2 [OF c] by (rule marshal_mem_spill)
  have lt: "i < 2 ^ 60" if "i < ?n" for i using bound that by (rule extra_count_bound)
  have a: "\<forall>i<?n. \<forall>j<?n. i < j \<longrightarrow> rsp s + 0x28 + 8 * of_nat i \<noteq> rsp s + 0x38 + 8 * of_nat j"
    using dst_before_src lt by blast
  have b: "\<forall>i<?n. \<forall>j<?n. i < j \<longrightarrow> rsp s + 0x28 + 8 * of_nat i \<noteq> rsp s + 0x28 + 8 * of_nat j"
    using dst_distinct lt by blast
  show "\<forall>i < ?n. mem (do_syscall_marshal s) (rsp s + 0x28 + 8 * of_nat i) =
            mem s (rsp s + 0x38 + 8 * of_nat i)"
  proof (intro allI impI)
    fix i assume i: "i < ?n"
    have "copy_up ?M (rsp s + 0x38) (rsp s + 0x28) ?n (rsp s + 0x28 + 8 * of_nat i) =
        ?M (rsp s + 0x38 + 8 * of_nat i)"
      using a b i by (rule copy_up_inside)
    also have "\<dots> = mem s (rsp s + 0x38 + 8 * of_nat i)"
      using slots_not_src [OF lt [OF i], of "rsp s"] by simp
    finally show "mem (do_syscall_marshal s) (rsp s + 0x28 + 8 * of_nat i) =
            mem s (rsp s + 0x38 + 8 * of_nat i)"
      unfolding m .
  qed
next
  let ?M = "(mem s)(rsp s - 0x8 := rsi s, rsp s - 0x10 := rdi s)"
  let ?n = "nat (sint (rdx s) - 4)"
  assume c: "4 < sint (rdx s) \<and> \<not> DF s"
  have m: "mem (do_syscall_marshal s) = copy_up ?M (rsp s + 0x38) (rsp s + 0x28) ?n"
    using conjunct1 [OF c] conjunct2 [OF c] by (rule marshal_mem_spill)
  show "\<forall>a. a \<noteq> rsp s - 0x8 \<and> a \<noteq> rsp s - 0x10 \<and>
              (\<forall>i < ?n. a \<noteq> rsp s + 0x28 + 8 * of_nat i) \<longrightarrow>
              mem (do_syscall_marshal s) a = mem s a"
  proof (intro allI impI, elim conjE)
    fix a
    assume "a \<noteq> rsp s - 0x8" "a \<noteq> rsp s - 0x10"
      and out: "\<forall>i < ?n. a \<noteq> rsp s + 0x28 + 8 * of_nat i"
    then have "?M a = mem s a" by simp
    moreover from out have "copy_up ?M (rsp s + 0x38) (rsp s + 0x28) ?n a = ?M a"
      by (rule copy_up_outside)
    ultimately show "mem (do_syscall_marshal s) a = mem s a" unfolding m by simp
  qed
qed

theorem spill_copies_extra_arguments_witness:
  "4 < sint (rdx entry6) \<and> \<not> DF entry6 \<and> sint (rdx entry6) < 2 ^ 60 \<and>
   nat (sint (rdx entry6) - 4) = 2 \<and>
   mem entry6 0x1028 = 0xA2 \<and> mem entry6 0x1030 = 0xA3 \<and>
   mem (do_syscall_marshal entry6) 0x1028 = 0xA4 \<and>
   mem (do_syscall_marshal entry6) 0x1030 = 0xA5 \<and>
   mem (do_syscall_marshal entry6) 0x1038 = 0xA4 \<and>
   mem (do_syscall_marshal entry6) 0x1040 = 0xA5 \<and>
   r10 (do_syscall_marshal entry6) = 0xA0 \<and> rdx (do_syscall_marshal entry6) = 0xA1 \<and>
   r8 (do_syscall_marshal entry6) = 0xA2 \<and> r9 (do_syscall_marshal entry6) = 0xA3 \<and>
   sint (rdx entry3) \<le> 4 \<and>
   mem (do_syscall_marshal entry3) = (mem entry3)(0xFF8 := 0x1111, 0xFF0 := 0x2222) \<and>
   rsi (do_syscall_marshal entry3) = 0x1111"
proof -
  have h: "4 < sint (rdx entry6)" "\<not> DF entry6" "sint (rdx entry6) < 2 ^ 60"
    "nat (sint (rdx entry6) - 4) = 2"
    by (simp_all add: entry6_def)
  have e: "mem entry6 0x1028 = 0xA2" "mem entry6 0x1030 = 0xA3"
    "mem entry6 0x1038 = 0xA4" "mem entry6 0x1040 = 0xA5" "rsp entry6 = 0x1000"
    "rsi entry6 = 0x1111" "rdi entry6 = 0x2222"
    by (simp_all add: entry6_def)
  have r: "r10 (do_syscall_marshal entry6) = 0xA0" "rdx (do_syscall_marshal entry6) = 0xA1"
    "r8 (do_syscall_marshal entry6) = 0xA2" "r9 (do_syscall_marshal entry6) = 0xA3"
    "mem (do_syscall_marshal entry6) 0x1038 = 0xA4"
    "mem (do_syscall_marshal entry6) 0x1040 = 0xA5"
    by (simp_all add: asm_eval entry6_def)
  have h3: "sint (rdx entry3) \<le> 4" "rsp entry3 = 0x1000" "rsi entry3 = 0x1111"
    "rdi entry3 = 0x2222"
    by (simp_all add: entry3_def entry6_def)
  from spill_copies_extra_arguments [of entry6] h(1-3)
  have "\<forall>i<nat (sint (rdx entry6) - 4).
      mem (do_syscall_marshal entry6) (rsp entry6 + 0x28 + 8 * of_nat i) =
      mem entry6 (rsp entry6 + 0x38 + 8 * of_nat i)"
    by blast
  then have c: "\<forall>i<2. mem (do_syscall_marshal entry6) (rsp entry6 + 0x28 + 8 * of_nat i) =
      mem entry6 (rsp entry6 + 0x38 + 8 * of_nat i)"
    unfolding h(4) .
  from c [rule_format, of 0] c [rule_format, of 1] e
  have m: "mem (do_syscall_marshal entry6) 0x1028 = 0xA4"
    "mem (do_syscall_marshal entry6) 0x1030 = 0xA5"
    by simp_all
  from spill_copies_extra_arguments [of entry3] h3(1)
  have "mem (do_syscall_marshal entry3) =
      (mem entry3)(rsp entry3 - 0x8 := rsi entry3, rsp entry3 - 0x10 := rdi entry3) \<and>
    rsi (do_syscall_marshal entry3) = rsi entry3"
    by blast
  then have s: "mem (do_syscall_marshal entry3) = (mem entry3)(0xFF8 := 0x1111, 0xFF0 := 0x2222)"
    "rsi (do_syscall_marshal entry3) = 0x1111"
    unfolding h3 by simp_all
  from h e r h3 m s show ?thesis by simp
qed

subsection \<open>C9: \<open>rsi\<close>, \<open>rdi\<close> and the result register\<close>

text \<open>
  C9: \<open>do_syscall\<close> stores \<open>rsi\<close> and \<open>rdi\<close> at \<open>[rsp - 0x8]\<close> and \<open>[rsp - 0x10]\<close>
  before it uses them and reloads them just before \<open>ret\<close>, so the caller finds both
  unchanged, and \<open>rax\<close> is returned as the transition left it. The direction flag is
  clear and the count is below \<open>2 ^ 60\<close>, so that the copy stays away from the two
  slots; the transition gives back the stack pointer it got and leaves the two slots
  alone; it may change anything else, \<open>rsi\<close> and \<open>rdi\<close> included.
\<close>

theorem do_syscall_preserves_rsi_rdi:
  assumes "\<not> DF s" and "sint (rdx s) < 2 ^ 60"
    and "rsp (transition (do_syscall_marshal s)) = rsp (do_syscall_marshal s)"
    and "mem (transition (do_syscall_marshal s)) (rsp s - 0x8) =
         mem (do_syscall_marshal s) (rsp s - 0x8)"
    and "mem (transition (do_syscall_marshal s)) (rsp s - 0x10) =
         mem (do_syscall_marshal s) (rsp s - 0x10)"
  shows "mem (do_syscall_marshal s) (rsp s - 0x8) = rsi s \<and>
         mem (do_syscall_marshal s) (rsp s - 0x10) = rdi s \<and>
         rsi (do_syscall transition s) = rsi s \<and>
         rdi (do_syscall transition s) = rdi s \<and>
         rax (do_syscall transition s) = rax (transition (do_syscall_marshal s))"
proof -
  let ?t = "transition (do_syscall_marshal s)"
  have sp: "rsp ?t = rsp s" using assms(3) marshal_rsp [OF assms(1)] by simp
  have 1: "mem (do_syscall_marshal s) (rsp s - 0x8) = rsi s"
    and 2: "mem (do_syscall_marshal s) (rsp s - 0x10) = rdi s"
    using assms(1,2) by (rule marshal_slots)+
  have 3: "rsi (do_syscall transition s) = rsi s"
    unfolding do_syscall_def epilogue_fields sp assms(4) by (rule 1)
  have 4: "rdi (do_syscall transition s) = rdi s"
    unfolding do_syscall_def epilogue_fields sp assms(5) by (rule 2)
  have 5: "rax (do_syscall transition s) = rax ?t"
    unfolding do_syscall_def epilogue_fields ..
  from 1 2 3 4 5 show ?thesis by (intro conjI)
qed

theorem do_syscall_preserves_rsi_rdi_witness:
  "\<not> DF entry6 \<and> sint (rdx entry6) < 2 ^ 60 \<and>
   rsp (status_transition (do_syscall_marshal entry6)) = rsp (do_syscall_marshal entry6) \<and>
   mem (status_transition (do_syscall_marshal entry6)) (rsp entry6 - 0x8) =
     mem (do_syscall_marshal entry6) (rsp entry6 - 0x8) \<and>
   mem (status_transition (do_syscall_marshal entry6)) (rsp entry6 - 0x10) =
     mem (do_syscall_marshal entry6) (rsp entry6 - 0x10) \<and>
   rsi (do_syscall_marshal entry6) = 0x1048 \<and>
   rsi (status_transition (do_syscall_marshal entry6)) = 0 \<and>
   rsi entry6 = 0x1111 \<and> rdi entry6 = 0x2222 \<and>
   rsi (do_syscall status_transition entry6) = 0x1111 \<and>
   rdi (do_syscall status_transition entry6) = 0x2222 \<and>
   rax (do_syscall status_transition entry6) = 0xC0000005"
proof -
  have h: "\<not> DF entry6" "sint (rdx entry6) < 2 ^ 60"
    "rsp (status_transition (do_syscall_marshal entry6)) = rsp (do_syscall_marshal entry6)"
    "mem (status_transition (do_syscall_marshal entry6)) (rsp entry6 - 0x8) =
       mem (do_syscall_marshal entry6) (rsp entry6 - 0x8)"
    "mem (status_transition (do_syscall_marshal entry6)) (rsp entry6 - 0x10) =
       mem (do_syscall_marshal entry6) (rsp entry6 - 0x10)"
    by (simp_all add: asm_eval entry6_def status_transition_def)
  have e: "rsi (do_syscall_marshal entry6) = 0x1048"
    "rsi (status_transition (do_syscall_marshal entry6)) = 0"
    "rsi entry6 = 0x1111" "rdi entry6 = 0x2222"
    "rax (status_transition (do_syscall_marshal entry6)) = 0xC0000005"
    by (simp_all add: asm_eval entry6_def status_transition_def)
  from do_syscall_preserves_rsi_rdi [of entry6 status_transition, OF h] h e
  show ?thesis by simp
qed


end
